theory Spec2Isabelle
  imports Main
begin

section \<open>Values shared by the models and the views\<close>

text \<open>
  Python exceptions are values. Every operation takes the state of the world and returns
  what the call did (it returned a value, or it raised) together with the state it leaves.
\<close>

datatype error =
  ValueError | KeyError | IndexError | AttributeError | OverflowError | Http404
  | DatabaseError | MultipleObjectsReturned

datatype 'a outcome = Returns 'a | Raises error

text \<open>The constants of \<open>Task\<close> (models.py, lines 326-327 and 345-347).\<close>

definition HUMAN :: string where "HUMAN = ''human''"
definition MACHINE :: string where "MACHINE = ''machine''"
definition FAILED :: string where "FAILED = ''failed''"
definition SUCCEEDED :: string where "SUCCEEDED = ''succeeded''"
definition SCHEDULED :: string where "SCHEDULED = ''scheduled''"

text \<open>
  A node of a process graph is a Python object bound to a class attribute. The code asks
  four things of it: its \<open>node_name\<close>, \<open>isinstance(node, views.TaskViewMixin)\<close>,
  \<open>isinstance(node, BaseCreateView)\<close> and \<open>callable(node)\<close>.
\<close>

record node =
  node_name :: string
  is_task_view :: bool
  is_create_view :: bool
  is_callable :: bool

text \<open>\<open>BaseProcess.__new__\<close>, line 54: the metaclass derives the node type.\<close>

definition node_type :: "node \<Rightarrow> string" where
  "node_type n = (if is_task_view n then HUMAN else MACHINE)"

text \<open>
  One row of the \<open>Task\<close> table, which is also the shape of a \<open>Task\<close> object in memory.
  \<open>pk = None\<close> is an object that was never saved; \<open>process_id = None\<close> is an object
  whose generic foreign key \<open>process\<close> resolves to \<open>None\<close>. Time stamps are natural numbers.
\<close>

record task =
  pk :: "nat option"
  process_id :: "nat option"
  task_node_name :: string
  task_node_type :: string
  status :: string
  completed_by_user :: "nat option"
  created :: "nat option"
  modified :: "nat option"
  completed :: "nat option"
  exception :: string
  stacktrace :: string

text \<open>The columns that the base class \<open>Process\<close> declares (lines 71-73).\<close>

record process =
  p_pk :: "nat option"
  p_created :: "nat option"
  p_modified :: "nat option"

text \<open>
  The database: both tables, the many-to-many table behind \<open>parent_task_set\<close> as a set of
  pairs (child, parent), and the two key sequences.
\<close>

record db =
  tasks :: "task list"
  links :: "(nat \<times> nat) set"
  processes :: "process list"
  next_task_id :: nat
  next_process_id :: nat

text \<open>
  What \<open>transaction.on_commit\<close> is handed in this code base: the bound method
  \<open>task.enqueue\<close> (line 501) or the lambda of \<open>enqueue\<close> that calls
  \<open>celery.task_wrapper.apply_async\<close> (lines 467-472) with its \<open>countdown\<close> and \<open>eta\<close>.
\<close>

datatype hook = EnqueueHook task | ApplyAsyncHook task "nat option" "nat option"

text \<open>A call that reached the task queue: \<open>args = (pk, _process_id)\<close>, countdown, eta.\<close>

record submission =
  sub_pk :: "nat option"
  sub_process_id :: "nat option"
  sub_countdown :: "nat option"
  sub_eta :: "nat option"

text \<open>
  The world: what the open transaction sees (\<open>working\<close>), what other connections and the
  queue workers see (\<open>committed\<close>), the nesting depth of \<open>transaction.atomic\<close> blocks, the
  functions waiting for the commit, the task queue and the clock.
\<close>

record state =
  working :: db
  committed :: db
  depth :: nat
  hooks :: "hook list"
  queue :: "submission list"
  clock :: nat

text \<open>
  A write goes to the open transaction; outside every \<open>atomic\<close> block the connection is in
  autocommit mode and the write is committed at once.
\<close>

definition db_write :: "(db \<Rightarrow> db) \<Rightarrow> state \<Rightarrow> state" where
  "db_write f s =
     (let s' = s\<lparr>working := f (working s)\<rparr>
      in if depth s = 0 then s'\<lparr>committed := working s'\<rparr> else s')"

text \<open>Python's truth value of a primary key: \<open>None\<close> and \<open>0\<close> are false.\<close>

definition truthy :: "nat option \<Rightarrow> bool" where
  "truthy v = (case v of None \<Rightarrow> False | Some i \<Rightarrow> i \<noteq> 0)"

section \<open>Saving\<close>

text \<open>
  \<open>super().save(**kwargs)\<close> is the framework's \<open>Model.save\<close>. With \<open>update_fields\<close> it
  updates only the named columns of the row with the object's key: an empty list does
  nothing, an unknown column name or a missing key is a \<open>ValueError\<close>, no matching row is a
  \<open>DatabaseError\<close>. Without \<open>update_fields\<close> it updates every column of the row, or inserts
  the row when there is none, drawing the key from the sequence when the object has none.
  \<open>modified\<close> is an \<open>auto_now\<close> column and \<open>created\<close> an \<open>auto_now_add\<close> column: the first is
  set whenever it is written, the second when the row is inserted.
\<close>

definition task_field_names :: "string list" where
  "task_field_names =
     [''_process'', ''node_name'', ''node_type'', ''status'', ''completed_by_user'',
      ''created'', ''modified'', ''completed'', ''exception'', ''stacktrace'']"

definition copy_fields :: "string list \<Rightarrow> task \<Rightarrow> task \<Rightarrow> task" where
  "copy_fields fs src dst =
     dst\<lparr>process_id := (if ''_process'' \<in> set fs then process_id src else process_id dst),
         task_node_name := (if ''node_name'' \<in> set fs then task_node_name src else task_node_name dst),
         task_node_type := (if ''node_type'' \<in> set fs then task_node_type src else task_node_type dst),
         status := (if ''status'' \<in> set fs then status src else status dst),
         completed_by_user :=
           (if ''completed_by_user'' \<in> set fs then completed_by_user src else completed_by_user dst),
         created := (if ''created'' \<in> set fs then created src else created dst),
         modified := (if ''modified'' \<in> set fs then modified src else modified dst),
         completed := (if ''completed'' \<in> set fs then completed src else completed dst),
         exception := (if ''exception'' \<in> set fs then exception src else exception dst),
         stacktrace := (if ''stacktrace'' \<in> set fs then stacktrace src else stacktrace dst)\<rparr>"

definition has_row :: "nat \<Rightarrow> db \<Rightarrow> bool" where
  "has_row i d = (\<exists>r \<in> set (tasks d). pk r = Some i)"

definition update_row :: "nat \<Rightarrow> (task \<Rightarrow> task) \<Rightarrow> db \<Rightarrow> db" where
  "update_row i f d = d\<lparr>tasks := map (\<lambda>r. if pk r = Some i then f r else r) (tasks d)\<rparr>"

definition insert_row :: "task \<Rightarrow> db \<Rightarrow> db" where
  "insert_row t d = d\<lparr>tasks := tasks d @ [t]\<rparr>"

definition Model_save_task :: "task \<Rightarrow> string list option \<Rightarrow> state \<Rightarrow> task outcome \<times> state" where
  "Model_save_task self update_fields s =
     (case update_fields of
        Some fs \<Rightarrow>
          if fs = [] then (Returns self, s)
          else if \<not> set fs \<subseteq> set task_field_names then (Raises ValueError, s)
          else (case pk self of
                  None \<Rightarrow> (Raises ValueError, s)
                | Some i \<Rightarrow>
                    let self' = (if ''modified'' \<in> set fs
                                 then self\<lparr>modified := Some (clock s)\<rparr> else self)
                    in if has_row i (working s)
                       then (Returns self', db_write (update_row i (copy_fields fs self')) s)
                       else (Raises DatabaseError, s))
      | None \<Rightarrow>
          let self' = self\<lparr>modified := Some (clock s)\<rparr>
          in (case pk self' of
                Some i \<Rightarrow>
                  if has_row i (working s)
                  then (Returns self', db_write (update_row i (\<lambda>r. self')) s)
                  else let self'' = self'\<lparr>created := Some (clock s)\<rparr>
                       in (Returns self'', db_write (insert_row self'') s)
              | None \<Rightarrow>
                  let i = next_task_id (working s);
                      self'' = self'\<lparr>pk := Some i, created := Some (clock s)\<rparr>
                  in (Returns self'',
                      db_write (\<lambda>d. (insert_row self'' d)\<lparr>next_task_id := Suc i\<rparr>) s)))"

text \<open>\<open>Task.save\<close>, lines 396-406.\<close>

definition Task_save :: "task \<Rightarrow> string list option \<Rightarrow> state \<Rightarrow> task outcome \<times> state" where
  "Task_save self update_fields s =
     (if truthy (pk self)
      then (case update_fields of
              None \<Rightarrow> (Raises ValueError, s)
            | Some fs \<Rightarrow> Model_save_task self (Some (fs @ [''modified''])) s)
      else Model_save_task self update_fields s)"

text \<open>The same framework method on the \<open>Process\<close> table.\<close>

definition process_field_names :: "string list" where
  "process_field_names = [''created'', ''modified'']"

definition copy_process_fields :: "string list \<Rightarrow> process \<Rightarrow> process \<Rightarrow> process" where
  "copy_process_fields fs src dst =
     dst\<lparr>p_created := (if ''created'' \<in> set fs then p_created src else p_created dst),
         p_modified := (if ''modified'' \<in> set fs then p_modified src else p_modified dst)\<rparr>"

definition has_process :: "nat \<Rightarrow> db \<Rightarrow> bool" where
  "has_process i d = (\<exists>r \<in> set (processes d). p_pk r = Some i)"

definition update_process :: "nat \<Rightarrow> (process \<Rightarrow> process) \<Rightarrow> db \<Rightarrow> db" where
  "update_process i f d =
     d\<lparr>processes := map (\<lambda>r. if p_pk r = Some i then f r else r) (processes d)\<rparr>"

definition insert_process :: "process \<Rightarrow> db \<Rightarrow> db" where
  "insert_process p d = d\<lparr>processes := processes d @ [p]\<rparr>"

definition Model_save_process ::
  "process \<Rightarrow> string list option \<Rightarrow> state \<Rightarrow> process outcome \<times> state" where
  "Model_save_process self update_fields s =
     (case update_fields of
        Some fs \<Rightarrow>
          if fs = [] then (Returns self, s)
          else if \<not> set fs \<subseteq> set process_field_names then (Raises ValueError, s)
          else (case p_pk self of
                  None \<Rightarrow> (Raises ValueError, s)
                | Some i \<Rightarrow>
                    let self' = (if ''modified'' \<in> set fs
                                 then self\<lparr>p_modified := Some (clock s)\<rparr> else self)
                    in if has_process i (working s)
                       then (Returns self',
                             db_write (update_process i (copy_process_fields fs self')) s)
                       else (Raises DatabaseError, s))
      | None \<Rightarrow>
          let self' = self\<lparr>p_modified := Some (clock s)\<rparr>
          in (case p_pk self' of
                Some i \<Rightarrow>
                  if has_process i (working s)
                  then (Returns self', db_write (update_process i (\<lambda>r. self')) s)
                  else let self'' = self'\<lparr>p_created := Some (clock s)\<rparr>
                       in (Returns self'', db_write (insert_process self'') s)
              | None \<Rightarrow>
                  let i = next_process_id (working s);
                      self'' = self'\<lparr>p_pk := Some i, p_created := Some (clock s)\<rparr>
                  in (Returns self'',
                      db_write (\<lambda>d. (insert_process self'' d)\<lparr>next_process_id := Suc i\<rparr>) s)))"

text \<open>
  \<open>Process.save\<close>, lines 269-277: the missing \<open>update_fields\<close> is passed over
  (\<open>except KeyError: pass\<close>) and the framework saves every column.
\<close>

definition Process_save ::
  "process \<Rightarrow> string list option \<Rightarrow> state \<Rightarrow> process outcome \<times> state" where
  "Process_save self update_fields s =
     (if truthy (p_pk self)
      then (case update_fields of
              None \<Rightarrow> Model_save_process self None s
            | Some fs \<Rightarrow> Model_save_process self (Some (fs @ [''modified''])) s)
      else Model_save_process self update_fields s)"

section \<open>The life cycle of a task\<close>

text \<open>
  A method that changes \<open>self\<close> returns the object as the call leaves it.
  \<open>Task.finish\<close>, lines 421-432; \<open>timezone.now()\<close> reads the clock.
\<close>

definition Task_finish :: "task \<Rightarrow> nat option \<Rightarrow> state \<Rightarrow> task outcome \<times> state" where
  "Task_finish self user s =
     (let self' = self\<lparr>completed := Some (clock s), status := SUCCEEDED,
                       completed_by_user := user\<rparr>
      in if truthy (pk self')
         then Task_save self' (Some [''status'', ''completed'', ''completed_by_user'']) s
         else Task_save self' None s)"

text \<open>
  A character of a string is a code point below 256. Python's \<open>str.strip()\<close> removes the
  white space at both ends; below 256 that is tab, line feed, vertical tab, form feed,
  carriage return, the four separators \<open>0x1c\<close> to \<open>0x1f\<close>, the blank, the next-line
  character \<open>0x85\<close> and the no-break space \<open>0xa0\<close>.
\<close>

definition is_space :: "char \<Rightarrow> bool" where
  "is_space c =
     (let k = (of_char c :: nat)
      in (9 \<le> k \<and> k \<le> 13) \<or> (28 \<le> k \<and> k \<le> 32) \<or> k = 133 \<or> k = 160)"

definition strip :: "string \<Rightarrow> string" where
  "strip x = rev (dropWhile is_space (rev (dropWhile is_space x)))"

text \<open>
  \<open>Task.fail\<close>, lines 434-440. \<open>tb\<close> is the list of strings that
  \<open>traceback.format_exception(*sys.exc_info())\<close> returns for the exception being handled.
\<close>

definition Task_fail :: "task \<Rightarrow> string list \<Rightarrow> state \<Rightarrow> task outcome \<times> state" where
  "Task_fail self tb s =
     (let self' = self\<lparr>completed := Some (clock s), status := FAILED\<rparr>
      in if tb = [] then (Raises IndexError, s)
         else Task_save (self'\<lparr>exception := strip (last tb), stacktrace := concat tb\<rparr>)
                (Some [''status'', ''exception'', ''stacktrace'']) s)"

text \<open>
  \<open>transaction.on_commit(func)\<close>: inside an \<open>atomic\<close> block the function is kept for the
  commit, in autocommit mode it is called at once. \<open>h\<close> names the function that is kept,
  \<open>act\<close> is what calling it does.
\<close>

definition on_commit ::
  "hook \<Rightarrow> (state \<Rightarrow> unit outcome \<times> state) \<Rightarrow> state \<Rightarrow> unit outcome \<times> state" where
  "on_commit h act s =
     (if 0 < depth s then (Returns (), s\<lparr>hooks := hooks s @ [h]\<rparr>) else act s)"

text \<open>The body of the lambda at lines 467-472: the call reaches the task queue.\<close>

definition apply_async ::
  "task \<Rightarrow> nat option \<Rightarrow> nat option \<Rightarrow> state \<Rightarrow> unit outcome \<times> state" where
  "apply_async self countdown eta s =
     (Returns (),
      s\<lparr>queue := queue s @
           [\<lparr>sub_pk = pk self, sub_process_id = process_id self,
             sub_countdown = countdown, sub_eta = eta\<rparr>]\<rparr>)"

text \<open>\<open>Task.enqueue\<close>, lines 442-472.\<close>

definition Task_enqueue ::
  "task \<Rightarrow> nat option \<Rightarrow> nat option \<Rightarrow> state \<Rightarrow> task outcome \<times> state" where
  "Task_enqueue self countdown eta s =
     (let self' = self\<lparr>status := SCHEDULED, completed := None, exception := [],
                       stacktrace := []\<rparr>
      in case Task_save self' (Some [''status'', ''completed'', ''exception'', ''stacktrace'']) s of
           (Raises e, s1) \<Rightarrow> (Raises e, s1)
         | (Returns self'', s1) \<Rightarrow>
             (case on_commit (ApplyAsyncHook self'' countdown eta)
                     (apply_async self'' countdown eta) s1 of
                (Raises e, s2) \<Rightarrow> (Raises e, s2)
              | (Returns u, s2) \<Rightarrow> (Returns self'', s2)))"

text \<open>Calling a kept function, and calling all of them in the order they were kept.\<close>

fun run_hook :: "hook \<Rightarrow> state \<Rightarrow> unit outcome \<times> state" where
  "run_hook (ApplyAsyncHook t countdown eta) s = apply_async t countdown eta s"
| "run_hook (EnqueueHook t) s =
     (case Task_enqueue t None None s of
        (Raises e, s1) \<Rightarrow> (Raises e, s1)
      | (Returns t', s1) \<Rightarrow> (Returns (), s1))"

fun run_hooks :: "hook list \<Rightarrow> state \<Rightarrow> unit outcome \<times> state" where
  "run_hooks [] s = (Returns (), s)"
| "run_hooks (h # hs) s =
     (case run_hook h s of
        (Raises e, s1) \<Rightarrow> (Raises e, s1)
      | (Returns u, s1) \<Rightarrow> run_hooks hs s1)"

text \<open>
  \<open>transaction.atomic\<close> around a body. An exception rolls the block back: what it wrote
  and the functions it kept are dropped. Leaving the outermost block commits and then
  calls the kept functions, which run in autocommit mode; leaving an inner block only
  releases its savepoint.
\<close>

definition atomic :: "(state \<Rightarrow> 'a outcome \<times> state) \<Rightarrow> state \<Rightarrow> 'a outcome \<times> state" where
  "atomic body s =
     (case body (s\<lparr>depth := Suc (depth s)\<rparr>) of
        (Raises e, s1) \<Rightarrow>
          (Raises e, s1\<lparr>working := working s, hooks := hooks s, depth := depth s\<rparr>)
      | (Returns r, s1) \<Rightarrow>
          if depth s = 0
          then (case run_hooks (hooks s1)
                       (s1\<lparr>depth := 0, committed := working s1, hooks := []\<rparr>) of
                  (Raises e, s2) \<Rightarrow> (Raises e, s2)
                | (Returns u, s2) \<Rightarrow> (Returns r, s2))
          else (Returns r, s1\<lparr>depth := depth s\<rparr>))"

section \<open>The process class\<close>

text \<open>
  What a concrete subclass of \<open>Process\<close> fixes: its name and its \<open>edges\<close>. Python builds
  the set of nodes and iterates it in an order the language does not fix; the functions
  that iterate the set take that order as the argument \<open>iter\<close>.
\<close>

record process_cls =
  cls_name :: string
  edges :: "(node \<times> node) list"

definition node_set :: "process_cls \<Rightarrow> node set" where
  "node_set cls = (\<Union>(a, b) \<in> set (edges cls). {a, b})"

definition iterates :: "(node set \<Rightarrow> node list) \<Rightarrow> node set \<Rightarrow> bool" where
  "iterates iter S = (set (iter S) = S \<and> distinct (iter S))"

text \<open>\<open>Process.get_nodes\<close>, lines 99-105.\<close>

definition get_nodes :: "(node set \<Rightarrow> node list) \<Rightarrow> process_cls \<Rightarrow> (string \<times> node) list" where
  "get_nodes iter cls = map (\<lambda>n. (node_name n, n)) (iter (node_set cls))"

text \<open>\<open>Process.get_url_namespace\<close>, lines 159-161: the class name in lower case.\<close>

definition lower_char :: "char \<Rightarrow> char" where
  "lower_char c =
     (case map_of (zip ''ABCDEFGHIJKLMNOPQRSTUVWXYZ'' ''abcdefghijklmnopqrstuvwxyz'') c of
        Some l \<Rightarrow> l
      | None \<Rightarrow> c)"

definition get_url_namespace :: "process_cls \<Rightarrow> string" where
  "get_url_namespace cls = map lower_char (cls_name cls)"

text \<open>
  \<open>Process.urls\<close>, lines 107-142. A \<open>path(route, view, name=name)\<close> is a record; the view
  is the wrapped node, the detail view or the override view.
\<close>

datatype view = TaskView string node | ProcessDetailView | ManualOverrideView

record url_path =
  route :: string
  url_view :: view
  url_name :: string

definition node_urls :: "(string \<times> node) \<Rightarrow> url_path list" where
  "node_urls p =
     (case p of (name, node) \<Rightarrow>
        if is_task_view node
        then [\<lparr>route = (if is_create_view node then name @ ''/'' else name @ ''/<pk>/''),
               url_view = TaskView name node, url_name = name\<rparr>]
        else [])"

definition urls :: "(node set \<Rightarrow> node list) \<Rightarrow> process_cls \<Rightarrow> url_path list \<times> string" where
  "urls iter cls =
     (concat (map node_urls (get_nodes iter cls)) @
        [\<lparr>route = ''<pk>/'', url_view = ProcessDetailView, url_name = ''detail''\<rparr>,
         \<lparr>route = ''<pk>/override'', url_view = ManualOverrideView, url_name = ''override''\<rparr>],
      get_url_namespace cls)"

text \<open>
  \<open>Process.get_node\<close>, lines 144-147: \<open>dict(cls.get_nodes())[name]\<close>; in a \<open>dict\<close> built
  from pairs the last pair with a key wins, and a missing key is a \<open>KeyError\<close>.
\<close>

definition get_node :: "(node set \<Rightarrow> node list) \<Rightarrow> process_cls \<Rightarrow> string \<Rightarrow> node outcome" where
  "get_node iter cls name =
     (case map_of (rev (get_nodes iter cls)) name of
        None \<Rightarrow> Raises KeyError
      | Some n \<Rightarrow> Returns n)"

text \<open>\<open>Process.get_next_nodes\<close>, lines 149-153.\<close>

definition get_next_nodes :: "process_cls \<Rightarrow> node \<Rightarrow> node list" where
  "get_next_nodes cls prev_node =
     map snd (filter (\<lambda>(start, end). node_name start = node_name prev_node) (edges cls))"

text \<open>
  The property \<open>Task.node\<close>, lines 417-419: \<open>getattr(self.process, self.node_name)\<close>. The
  attributes of the class that carry a \<open>node_name\<close> are the nodes of its edges, each under
  its own name (the metaclass, line 53), and \<open>manual_override\<close>, the override view class
  (line 90), whose \<open>node_name\<close> is \<open>manual_override\<close> (views.py, line 70). A task without a
  process, or a name that is no such attribute, ends in an \<open>AttributeError\<close>.
\<close>

definition manual_override :: node where
  "manual_override =
     \<lparr>node_name = ''manual_override'', is_task_view = False, is_create_view = False,
      is_callable = True\<rparr>"

definition edge_nodes :: "process_cls \<Rightarrow> node list" where
  "edge_nodes cls = concat (map (\<lambda>(a, b). [a, b]) (edges cls))"

definition Task_node :: "process_cls \<Rightarrow> task \<Rightarrow> node outcome" where
  "Task_node cls self =
     (case process_id self of
        None \<Rightarrow> Raises AttributeError
      | Some pid \<Rightarrow>
          (case find (\<lambda>n. node_name n = task_node_name self) (edge_nodes cls) of
             Some n \<Rightarrow> Returns n
           | None \<Rightarrow>
               if task_node_name self = ''manual_override'' then Returns manual_override
               else Raises AttributeError))"

section \<open>Starting the next tasks\<close>

text \<open>A \<open>Task(...)\<close> object as the constructor leaves it when no field is given.\<close>

definition new_task :: task where
  "new_task =
     \<lparr>pk = None, process_id = None, task_node_name = [], task_node_type = [],
      status = SCHEDULED, completed_by_user = None, created = None, modified = None,
      completed = None, exception = [], stacktrace = []\<rparr>"

text \<open>
  \<open>process.task_set.create(node_name=..., node_type=...)\<close>: the related manager builds
  the object for this process and calls its \<open>save\<close> without \<open>update_fields\<close>.
\<close>

definition task_set_create :: "nat \<Rightarrow> string \<Rightarrow> string \<Rightarrow> state \<Rightarrow> task outcome \<times> state" where
  "task_set_create pid name type s =
     Task_save (new_task\<lparr>process_id := Some pid, task_node_name := name,
                         task_node_type := type\<rparr>) None s"

text \<open>
  \<open>child.parent_task_set.add(parent)\<close> and \<open>child.parent_task_set.set(parents)\<close>: the
  many-to-many manager needs saved objects; \<open>set\<close> replaces the parents of the child.
\<close>

definition parent_task_set_add :: "task \<Rightarrow> task \<Rightarrow> state \<Rightarrow> unit outcome \<times> state" where
  "parent_task_set_add child parent s =
     (case (pk child, pk parent) of
        (Some c, Some p) \<Rightarrow> (Returns (), db_write (\<lambda>d. d\<lparr>links := insert (c, p) (links d)\<rparr>) s)
      | _ \<Rightarrow> (Raises ValueError, s))"

definition parent_task_set_set :: "task \<Rightarrow> task list \<Rightarrow> state \<Rightarrow> unit outcome \<times> state" where
  "parent_task_set_set child parents s =
     (case pk child of
        None \<Rightarrow> (Raises ValueError, s)
      | Some c \<Rightarrow>
          if \<exists>p \<in> set parents. pk p = None then (Raises ValueError, s)
          else (Returns (),
                db_write (\<lambda>d. d\<lparr>links := {l \<in> links d. fst l \<noteq> c} \<union>
                               set (concat (map (\<lambda>p. case pk p of None \<Rightarrow> []
                                                     | Some i \<Rightarrow> [(c, i)]) parents))\<rparr>) s))"

text \<open>
  \<open>Task.start_next_tasks\<close>, lines 474-503. Node classes that bring their own
  \<open>create_task\<close> (the comment at line 492 names Join) are defined outside these sources:
  \<open>create_task n\<close> is \<open>None\<close> for a node without that attribute and the method otherwise.
  \<open>next_nodes\<close> is consumed one element at a time, and the generator of the override view
  can raise at any element.
\<close>

type_synonym creator = "node \<Rightarrow> (nat option \<Rightarrow> state \<Rightarrow> task outcome \<times> state) option"

definition default_create :: "task \<Rightarrow> node \<Rightarrow> state \<Rightarrow> task outcome \<times> state" where
  "default_create self n s =
     (case process_id self of
        None \<Rightarrow> (Raises AttributeError, s)
      | Some pid \<Rightarrow> task_set_create pid (node_name n) (node_type n) s)"

definition create_for :: "creator \<Rightarrow> task \<Rightarrow> node \<Rightarrow> state \<Rightarrow> task outcome \<times> state" where
  "create_for create_task self n s =
     (case create_task n of
        None \<Rightarrow> default_create self n s
      | Some f \<Rightarrow>
          (case f (process_id self) s of
             (Raises e, s1) \<Rightarrow>
               if e = AttributeError then default_create self n s1 else (Raises e, s1)
           | (Returns t, s1) \<Rightarrow> (Returns t, s1)))"

fun start_next_tasks_loop ::
  "creator \<Rightarrow> task \<Rightarrow> node outcome list \<Rightarrow> task list \<Rightarrow> state \<Rightarrow> task list outcome \<times> state" where
  "start_next_tasks_loop create_task self [] acc s = (Returns acc, s)"
| "start_next_tasks_loop create_task self (Raises e # ns) acc s = (Raises e, s)"
| "start_next_tasks_loop create_task self (Returns n # ns) acc s =
     (case create_for create_task self n s of
        (Raises e, s1) \<Rightarrow> (Raises e, s1)
      | (Returns t, s1) \<Rightarrow>
          (case parent_task_set_add t self s1 of
             (Raises e, s2) \<Rightarrow> (Raises e, s2)
           | (Returns u, s2) \<Rightarrow>
               (case (if is_callable n
                      then on_commit (EnqueueHook t) (run_hook (EnqueueHook t)) s2
                      else (Returns (), s2)) of
                  (Raises e, s3) \<Rightarrow> (Raises e, s3)
                | (Returns u', s3) \<Rightarrow>
                    start_next_tasks_loop create_task self ns (acc @ [t]) s3)))"

definition start_next_tasks_body ::
  "creator \<Rightarrow> process_cls \<Rightarrow> task \<Rightarrow> node outcome list option \<Rightarrow> state
     \<Rightarrow> task list outcome \<times> state" where
  "start_next_tasks_body create_task cls self next_nodes s =
     (case next_nodes of
        Some ns \<Rightarrow> start_next_tasks_loop create_task self ns [] s
      | None \<Rightarrow>
          (case Task_node cls self of
             Raises e \<Rightarrow> (Raises e, s)
           | Returns n \<Rightarrow>
               start_next_tasks_loop create_task self
                 (map Returns (get_next_nodes cls n)) [] s))"

definition Task_start_next_tasks ::
  "creator \<Rightarrow> process_cls \<Rightarrow> task \<Rightarrow> node outcome list option \<Rightarrow> state
     \<Rightarrow> task list outcome \<times> state" where
  "Task_start_next_tasks create_task cls self next_nodes =
     atomic (start_next_tasks_body create_task cls self next_nodes)"

section \<open>The URL of a task\<close>

text \<open>
  \<open>Task.get_absolute_url\<close>, lines 408-415. \<open>reverse\<close> belongs to the framework and to the
  URL configuration of the project: \<open>reverse url_name pk\<close> is the URL that
  \<open>reverse(url_name, kwargs=dict(pk=pk))\<close> returns, or \<open>None\<close> when it raises
  \<open>NoReverseMatch\<close>. A \<open>datetime\<close> is always true, so \<open>if self.completed\<close> asks whether
  the time stamp is set.
\<close>

definition Task_get_absolute_url ::
  "(string \<Rightarrow> nat option \<Rightarrow> string option) \<Rightarrow> process_cls \<Rightarrow> task \<Rightarrow> string option outcome" where
  "Task_get_absolute_url reverse cls self =
     (if completed self \<noteq> None then Returns None
      else (case process_id self of
              None \<Rightarrow> Raises AttributeError
            | Some pid \<Rightarrow>
                (let url_name = get_url_namespace cls @ '':'' @ task_node_name self
                 in case reverse url_name (pk self) of
                      Some url \<Rightarrow> Returns (Some url)
                    | None \<Rightarrow> Returns None)))"

section \<open>The views\<close>

text \<open>
  \<open>get_object_or_404(models.Task, ...)\<close>: the one row that matches, \<open>Http404\<close> when no
  row matches.
\<close>

definition get_object_or_404 :: "(task \<Rightarrow> bool) \<Rightarrow> state \<Rightarrow> task outcome" where
  "get_object_or_404 P s =
     (case filter P (tasks (working s)) of
        [] \<Rightarrow> Raises Http404
      | [t] \<Rightarrow> Returns t
      | t # t' # ts \<Rightarrow> Raises MultipleObjectsReturned)"

text \<open>
  The route of a task view is \<open><node>/<pk>/\<close> with the plain string converter, so the
  \<open>pk\<close> of a request is any text. The lookup \<open>pk=...\<close> turns it into a number with Python's
  \<open>int\<close>: white space around it is dropped, a sign may lead, and the digits may be grouped
  by single underscores; any other text is a \<open>ValueError\<close>.
\<close>

definition digit_value :: "char \<Rightarrow> nat option" where
  "digit_value c =
     (let k = (of_char c :: nat) in if 48 \<le> k \<and> k \<le> 57 then Some (k - 48) else None)"

fun parse_digits :: "nat \<Rightarrow> bool \<Rightarrow> string \<Rightarrow> nat option" where
  "parse_digits acc after_digit [] = (if after_digit then Some acc else None)"
| "parse_digits acc after_digit (c # cs) =
     (case digit_value c of
        Some d \<Rightarrow> parse_digits (10 * acc + d) True cs
      | None \<Rightarrow>
          if c = CHR ''_'' \<and> after_digit then parse_digits acc False cs else None)"

definition python_int :: "string \<Rightarrow> int option" where
  "python_int x =
     (case strip x of
        [] \<Rightarrow> None
      | c # cs \<Rightarrow>
          if c = CHR ''-'' then map_option (\<lambda>n. - int n) (parse_digits 0 False cs)
          else if c = CHR ''+'' then map_option int (parse_digits 0 False cs)
          else map_option int (parse_digits 0 False (c # cs)))"

text \<open>
  The lookup of a task by the \<open>pk\<close> of the request, as \<open>get_object_or_404\<close> makes it for
  both packages: a text that is no number raises \<open>ValueError\<close> while the query is built, a
  number outside the 64 bits of the key column raises \<open>OverflowError\<close> when the query
  runs, and neither is the \<open>DoesNotExist\<close> that \<open>get_object_or_404\<close> turns into \<open>Http404\<close>.
\<close>

definition task_or_404 :: "string \<Rightarrow> string \<Rightarrow> state \<Rightarrow> task outcome" where
  "task_or_404 pk_text name s =
     (case python_int pk_text of
        None \<Rightarrow> Raises ValueError
      | Some n \<Rightarrow>
          if n < - (2 ^ 63) \<or> 2 ^ 63 \<le> n then Raises OverflowError
          else get_object_or_404
                 (\<lambda>t. map_option int (pk t) = Some n \<and> task_node_name t = name \<and>
                      completed t = None) s)"

text \<open>
  \<open>TaskViewMixin.get_task\<close>, galahad/views.py, lines 37-48. \<open>kwargs\<close> are the keyword
  arguments that the URL resolver took from the request path; a missing \<open>pk\<close> is the
  \<open>KeyError\<close> that the method catches.
\<close>

definition get_task :: "string \<Rightarrow> (string \<Rightarrow> string option) \<Rightarrow> state \<Rightarrow> task outcome" where
  "get_task view_node_name kwargs s =
     (case kwargs ''pk'' of
        None \<Rightarrow> Returns (new_task\<lparr>task_node_name := view_node_name\<rparr>)
      | Some pk_text \<Rightarrow> task_or_404 pk_text view_node_name s)"



text \<open>
  \<open>ManualOverrideView.get_next_task_nodes\<close>, lines 89-92: a generator, so a name that is
  no node raises only when the loop of \<open>start_next_tasks\<close> reaches it.
\<close>

definition get_next_task_nodes ::
  "(node set \<Rightarrow> node list) \<Rightarrow> process_cls \<Rightarrow> string list \<Rightarrow> node outcome list" where
  "get_next_task_nodes iter cls node_names = map (get_node iter cls) node_names"

text \<open>\<open>self.object.task_set.filter(completed=None)\<close>, as a list.\<close>

definition active_tasks :: "nat \<Rightarrow> state \<Rightarrow> task list" where
  "active_tasks pid s =
     filter (\<lambda>t. process_id t = Some pid \<and> completed t = None) (tasks (working s))"

fun finish_all :: "task list \<Rightarrow> state \<Rightarrow> unit outcome \<times> state" where
  "finish_all [] s = (Returns (), s)"
| "finish_all (t # ts) s =
     (case Task_finish t None s of
        (Raises e, s1) \<Rightarrow> (Raises e, s1)
      | (Returns t', s1) \<Rightarrow> finish_all ts s1)"

text \<open>
  \<open>ManualOverrideView.form_valid\<close>, lines 94-107. \<open>super().form_valid(form)\<close> saves the
  process of the form, \<open>self.object\<close>, through \<open>Process.save\<close> without \<open>update_fields\<close>;
  \<open>node_names\<close> is \<open>form.cleaned_data['next_tasks']\<close>. After the save the process has a
  key, which \<open>task_set\<close> filters by. The redirect response is not modelled: the function
  returns the tasks that \<open>start_next_tasks\<close> returned.
\<close>

definition form_valid_body ::
  "creator \<Rightarrow> (node set \<Rightarrow> node list) \<Rightarrow> process_cls \<Rightarrow> process \<Rightarrow> string list \<Rightarrow> state
     \<Rightarrow> task list outcome \<times> state" where
  "form_valid_body create_task iter cls object node_names s =
     (let next_nodes = get_next_task_nodes iter cls node_names
      in case Process_save object None s of
           (Raises e, s1) \<Rightarrow> (Raises e, s1)
         | (Returns object', s1) \<Rightarrow>
             (case p_pk object' of
                None \<Rightarrow> (Raises AttributeError, s1)
              | Some pid \<Rightarrow>
                  (let active = active_tasks pid s1
                   in case finish_all active s1 of
                        (Raises e, s2) \<Rightarrow> (Raises e, s2)
                      | (Returns u, s2) \<Rightarrow>
                          (case task_set_create pid ''manual_override'' [] s2 of
                             (Raises e, s3) \<Rightarrow> (Raises e, s3)
                           | (Returns override_task, s3) \<Rightarrow>
                               (case parent_task_set_set override_task active s3 of
                                  (Raises e, s4) \<Rightarrow> (Raises e, s4)
                                | (Returns u', s4) \<Rightarrow>
                                    (case Task_finish override_task None s4 of
                                       (Raises e, s5) \<Rightarrow> (Raises e, s5)
                                     | (Returns override_task', s5) \<Rightarrow>
                                         Task_start_next_tasks create_task cls override_task'
                                           (Some next_nodes) s5))))))"

definition form_valid ::
  "creator \<Rightarrow> (node set \<Rightarrow> node list) \<Rightarrow> process_cls \<Rightarrow> process \<Rightarrow> string list \<Rightarrow> state
     \<Rightarrow> task list outcome \<times> state" where
  "form_valid create_task iter cls object node_names =
     atomic (form_valid_body create_task iter cls object node_names)"

section \<open>Notions the statements use\<close>

text \<open>
  The integrity the database keeps by itself: every task row has a key, drawn from the
  sequence and not zero; keys are unique; the many-to-many table refers to rows.
\<close>

definition well_formed :: "db \<Rightarrow> bool" where
  "well_formed d =
     ((\<forall>r \<in> set (tasks d). \<exists>i. pk r = Some i \<and> 0 < i \<and> i < next_task_id d) \<and>
      0 < next_task_id d \<and>
      distinct (map pk (tasks d)) \<and>
      (\<forall>(c, p) \<in> links d. has_row c d \<and> has_row p d))"

text \<open>
  The row that \<open>task_set.create\<close> inserts with key \<open>i\<close> at time \<open>now\<close>, the rows it inserts
  for a list of nodes from key \<open>i\<close> on, and the row that \<open>finish()\<close> without a user leaves.
\<close>

definition created_task :: "nat \<Rightarrow> nat \<Rightarrow> string \<Rightarrow> string \<Rightarrow> nat \<Rightarrow> task" where
  "created_task i pid name type now =
     new_task\<lparr>pk := Some i, process_id := Some pid, task_node_name := name,
              task_node_type := type, created := Some now, modified := Some now\<rparr>"

fun new_tasks :: "nat \<Rightarrow> nat \<Rightarrow> nat \<Rightarrow> node list \<Rightarrow> task list" where
  "new_tasks i pid now [] = []"
| "new_tasks i pid now (n # ns) =
     created_task i pid (node_name n) (node_type n) now # new_tasks (Suc i) pid now ns"

definition finished :: "nat \<Rightarrow> task \<Rightarrow> task" where
  "finished now r =
     r\<lparr>status := SUCCEEDED, completed_by_user := None, modified := Some now,
       completed := Some now\<rparr>"

text \<open>
  The parent links of \<open>d'\<close> are those of \<open>d\<close> and new ones, each from a row that \<open>d\<close> did
  not have to a row with a smaller key.
\<close>

definition appends_links :: "db \<Rightarrow> db \<Rightarrow> bool" where
  "appends_links d d' =
     (links d \<subseteq> links d' \<and>
      (\<forall>(c, q) \<in> links d' - links d.
          \<not> has_row c d \<and> has_row c d' \<and> has_row q d' \<and> q < c))"

text \<open>Of the tasks made for a list of nodes, those whose node is callable.\<close>

definition enqueued :: "node list \<Rightarrow> task list \<Rightarrow> task list" where
  "enqueued ns ts = map snd (filter (\<lambda>(n, t). is_callable n) (zip ns ts))"

text \<open>
  What has to hold for the queue never to see a row that is not committed. A kept call
  for the worker is ready when its task has a row in the open transaction. A state is
  safe when every call on the queue names a committed row, every kept function is ready,
  every committed row is still there in the open transaction, and outside a transaction
  nothing is uncommitted. A step is safe when it leads to a safe state, keeps the depth
  and the rows, and inside a transaction leaves the committed tables and the queue alone.
\<close>

definition hook_ready :: "db \<Rightarrow> hook \<Rightarrow> bool" where
  "hook_ready d h =
     (case h of
        EnqueueHook t \<Rightarrow> True
      | ApplyAsyncHook t countdown eta \<Rightarrow> (\<exists>i. pk t = Some i \<and> has_row i d))"

definition commit_safe :: "state \<Rightarrow> bool" where
  "commit_safe s =
     ((\<forall>q \<in> set (queue s). \<exists>i. sub_pk q = Some i \<and> has_row i (committed s)) \<and>
      (\<forall>h \<in> set (hooks s). hook_ready (working s) h) \<and>
      (\<forall>i. has_row i (committed s) \<longrightarrow> has_row i (working s)) \<and>
      (depth s = 0 \<longrightarrow> committed s = working s))"

definition safe_step :: "state \<Rightarrow> state \<Rightarrow> bool" where
  "safe_step s s' =
     (commit_safe s' \<and> depth s' = depth s \<and>
      (0 < depth s \<longrightarrow> committed s' = committed s \<and> queue s' = queue s) \<and>
      (\<forall>i. has_row i (working s) \<longrightarrow> has_row i (working s')))"

text \<open>The \<open>create_task\<close> methods that nodes bring make safe steps.\<close>

definition creators_safe :: "creator \<Rightarrow> bool" where
  "creators_safe create_task =
     (\<forall>n f pid s0. create_task n = Some f \<longrightarrow> commit_safe s0 \<longrightarrow> 0 < depth s0 \<longrightarrow>
        safe_step s0 (snd (f pid s0)))"

section \<open>A small process, used where a statement is tried on concrete values\<close>

text \<open>
  An order process: \<open>start\<close> is a create view, \<open>review\<close> an update view, \<open>ship\<close> a
  function for the worker. Process 1 has finished its \<open>start\<close> task (key 1) and waits for
  the \<open>review\<close> task (key 2).
\<close>

definition ex_start :: node where
  "ex_start =
     \<lparr>node_name = ''start'', is_task_view = True, is_create_view = True, is_callable = False\<rparr>"

definition ex_review :: node where
  "ex_review =
     \<lparr>node_name = ''review'', is_task_view = True, is_create_view = False, is_callable = False\<rparr>"

definition ex_ship :: node where
  "ex_ship =
     \<lparr>node_name = ''ship'', is_task_view = False, is_create_view = False, is_callable = True\<rparr>"

definition ex_cls :: process_cls where
  "ex_cls =
     \<lparr>cls_name = ''Order'',
      edges = [(ex_start, ex_review), (ex_start, ex_ship), (ex_review, ex_ship)]\<rparr>"

definition ex_iter :: "node set \<Rightarrow> node list" where
  "ex_iter S = [ex_ship, ex_start, ex_review]"

definition ex_process :: process where
  "ex_process = \<lparr>p_pk = Some 1, p_created = Some 0, p_modified = Some 0\<rparr>"

definition ex_t1 :: task where
  "ex_t1 =
     \<lparr>pk = Some 1, process_id = Some 1, task_node_name = ''start'',
      task_node_type = ''human'', status = ''succeeded'', completed_by_user = None,
      created = Some 1, modified = Some 1, completed = Some 1, exception = [],
      stacktrace = []\<rparr>"

definition ex_t2 :: task where
  "ex_t2 =
     \<lparr>pk = Some 2, process_id = Some 1, task_node_name = ''review'',
      task_node_type = ''human'', status = ''scheduled'', completed_by_user = None,
      created = Some 1, modified = Some 1, completed = None, exception = [],
      stacktrace = []\<rparr>"

definition ex_db :: db where
  "ex_db =
     \<lparr>tasks = [ex_t1, ex_t2], links = {(2, 1)}, processes = [ex_process],
      next_task_id = 3, next_process_id = 2\<rparr>"

definition ex_state :: state where
  "ex_state =
     \<lparr>working = ex_db, committed = ex_db, depth = 0, hooks = [], queue = [], clock = 5\<rparr>"

text \<open>A URL configuration that knows the review view of the order process.\<close>

definition ex_reverse :: "string \<Rightarrow> nat option \<Rightarrow> string option" where
  "ex_reverse qualified_name k =
     (if qualified_name = ''order:review'' \<and> k = Some 2 then Some ''/order/review/2/''
      else None)"

text \<open>What \<open>format_exception\<close> returns for a \<open>ValueError('boom')\<close> raised at top level.\<close>

definition ex_tb :: "string list" where
  "ex_tb = [''Traceback (most recent call last):\<newline>'', ''ValueError: boom\<newline>'']"





text \<open>
  A process class with two unusual nodes after \<open>start\<close>: \<open>wait\<close> is neither a view nor
  callable, so the metaclass gives it the machine type; \<open>sign\<close> is a task view whose class
  defines \<open>__call__\<close>.
\<close>

definition ex_wait :: node where
  "ex_wait =
     \<lparr>node_name = ''wait'', is_task_view = False, is_create_view = False, is_callable = False\<rparr>"

definition ex_sign :: node where
  "ex_sign =
     \<lparr>node_name = ''sign'', is_task_view = True, is_create_view = False, is_callable = True\<rparr>"

definition ex_contract_cls :: process_cls where
  "ex_contract_cls =
     \<lparr>cls_name = ''Contract'', edges = [(ex_start, ex_wait), (ex_start, ex_sign)]\<rparr>"

text \<open>
  A node class with a \<open>create_task\<close> of its own, as the comment at line 492 has them. This
  one keeps a single task per process: its method returns the first component of
  \<open>process.task_set.get_or_create(node_name=self.node_name, node_type=self.node_type)\<close>,
  the task of the node when the process has one and a new task otherwise. In the example
  the review node is of that class.
\<close>

definition get_or_create :: "string \<Rightarrow> string \<Rightarrow> nat option \<Rightarrow> state \<Rightarrow> task outcome \<times> state" where
  "get_or_create name type process s =
     (case process of
        None \<Rightarrow> (Raises AttributeError, s)
      | Some pid \<Rightarrow>
          (case filter (\<lambda>t. process_id t = Some pid \<and> task_node_name t = name \<and>
                            task_node_type t = type) (tasks (working s)) of
             [] \<Rightarrow> task_set_create pid name type s
           | [t] \<Rightarrow> (Returns t, s)
           | t # t' # ts \<Rightarrow> (Raises MultipleObjectsReturned, s)))"

definition ex_create_task :: creator where
  "ex_create_task n =
     (if node_name n = ''review'' then Some (get_or_create (node_name n) (node_type n))
      else None)"

text \<open>
  An order process with a way back: after \<open>ship\<close> the order is reviewed again. Process 1 has
  finished its start task (key 1), its review task (key 2) and its ship task (key 3).
\<close>

definition ex_loop_cls :: process_cls where
  "ex_loop_cls =
     \<lparr>cls_name = ''Order'',
      edges = [(ex_start, ex_review), (ex_review, ex_ship), (ex_ship, ex_review)]\<rparr>"

definition ex_t2_done :: task where
  "ex_t2_done =
     \<lparr>pk = Some 2, process_id = Some 1, task_node_name = ''review'',
      task_node_type = ''human'', status = ''succeeded'', completed_by_user = None,
      created = Some 1, modified = Some 2, completed = Some 2, exception = [],
      stacktrace = []\<rparr>"

definition ex_t3 :: task where
  "ex_t3 =
     \<lparr>pk = Some 3, process_id = Some 1, task_node_name = ''ship'',
      task_node_type = ''machine'', status = ''succeeded'', completed_by_user = None,
      created = Some 2, modified = Some 3, completed = Some 3, exception = [],
      stacktrace = []\<rparr>"

definition ex_loop_db :: db where
  "ex_loop_db =
     \<lparr>tasks = [ex_t1, ex_t2_done, ex_t3], links = {(2, 1), (3, 2)}, processes = [ex_process],
      next_task_id = 4, next_process_id = 2\<rparr>"

definition ex_loop_state :: state where
  "ex_loop_state =
     \<lparr>working = ex_loop_db, committed = ex_loop_db, depth = 0, hooks = [], queue = [],
      clock = 5\<rparr>"

section \<open>Properties\<close>

lemmas ex_defs = ex_start_def ex_review_def ex_ship_def ex_cls_def ex_iter_def ex_process_def
  ex_t1_def ex_t2_def ex_db_def ex_state_def

subsection \<open>What the operations leave behind\<close>

lemma task_set_create_eq:
  "task_set_create pid name type s =
     (Returns (created_task (next_task_id (working s)) pid name type (clock s)),
      db_write (\<lambda>d. d\<lparr>tasks := tasks d @ [created_task (next_task_id (working s)) pid name type (clock s)],
                      next_task_id := Suc (next_task_id (working s))\<rparr>) s)"
  by (simp add: task_set_create_def Task_save_def Model_save_task_def truthy_def new_task_def
      created_task_def Let_def insert_row_def)

lemma loop_inside:
  assumes "pk self = Some p" and "process_id self = Some pid" and "0 < depth s"
    and "\<forall>n \<in> set ns. create_task n = None"
  shows "start_next_tasks_loop create_task self (map Returns ns) acc s =
     (Returns (acc @ new_tasks (next_task_id (working s)) pid (clock s) ns),
      s\<lparr>working := (working s)\<lparr>
           tasks := tasks (working s) @ new_tasks (next_task_id (working s)) pid (clock s) ns,
           links := links (working s) \<union>
                    (\<lambda>i. (i, p)) ` {next_task_id (working s) ..< next_task_id (working s) + length ns},
           next_task_id := next_task_id (working s) + length ns\<rparr>,
         hooks := hooks s @ map EnqueueHook
                    (enqueued ns (new_tasks (next_task_id (working s)) pid (clock s) ns))\<rparr>)"
  using assms
proof (induction ns arbitrary: s acc)
  case Nil
  then show ?case by (simp add: enqueued_def)
next
  case (Cons n ns)
  let ?k = "next_task_id (working s)"
  let ?t = "created_task ?k pid (node_name n) (node_type n) (clock s)"
  let ?s3 = "s\<lparr>working := (working s)\<lparr>tasks := tasks (working s) @ [?t],
                next_task_id := Suc ?k, links := insert (?k, p) (links (working s))\<rparr>,
              hooks := hooks s @ (if is_callable n then [EnqueueHook ?t] else [])\<rparr>"
  have d3: "0 < depth ?s3" using Cons.prems by simp
  have rest: "\<forall>n \<in> set ns. create_task n = None" using Cons.prems by simp
  have step: "start_next_tasks_loop create_task self (map Returns (n # ns)) acc s =
        start_next_tasks_loop create_task self (map Returns ns) (acc @ [?t]) ?s3"
    using Cons.prems
    by (simp add: create_for_def default_create_def task_set_create_eq parent_task_set_add_def
        on_commit_def db_write_def created_task_def)
  have set_eq: "insert (?k, p) (links (working s)) \<union> (\<lambda>i. (i, p)) ` {Suc ?k ..< Suc ?k + length ns}
      = links (working s) \<union> (\<lambda>i. (i, p)) ` {?k ..< ?k + length (n # ns)}"
    by (auto simp add: image_iff Suc_le_eq le_less)
  show ?case
    unfolding step
    apply (subst Cons.IH [OF Cons.prems(1) Cons.prems(2) d3 rest])
    apply (simp add: enqueued_def set_eq [simplified])
    done
qed


lemma same_key_same_row:
  assumes "distinct (map pk xs)" and "r \<in> set xs" and "t \<in> set xs" and "pk r = pk t"
  shows "r = t"
  using assms by (meson distinct_map inj_on_def)

lemma copy_fields_enqueue:
  "copy_fields [''status'', ''completed'', ''exception'', ''stacktrace'', ''modified''] a r =
     r\<lparr>status := status a, completed := completed a, exception := exception a,
       stacktrace := stacktrace a, modified := modified a\<rparr>"
  by (simp add: copy_fields_def)

lemma enqueue_stored:
  assumes "pk self = Some i" and "i \<noteq> 0" and "has_row i (working s)"
  shows "Task_enqueue self countdown eta s =
     (let self' = self\<lparr>status := SCHEDULED, completed := None, exception := [],
                       stacktrace := [], modified := Some (clock s)\<rparr>;
          s1 = db_write (update_row i (\<lambda>r. r\<lparr>status := SCHEDULED, completed := None,
                    exception := [], stacktrace := [], modified := Some (clock s)\<rparr>)) s
      in (Returns self',
          if 0 < depth s then s1\<lparr>hooks := hooks s @ [ApplyAsyncHook self' countdown eta]\<rparr>
          else s1\<lparr>queue := queue s @ [\<lparr>sub_pk = Some i, sub_process_id = process_id self,
             sub_countdown = countdown, sub_eta = eta\<rparr>]\<rparr>))"
  using assms
  apply (simp add: Task_enqueue_def Task_save_def truthy_def Model_save_task_def
      task_field_names_def Let_def on_commit_def apply_async_def copy_fields_enqueue db_write_def)
  apply (simp add: update_row_def copy_fields_def)
  done

lemma enqueue_fresh:
  assumes "depth s = 0" and "committed s = working s"
    and "t \<in> set (tasks (working s))" and "distinct (map pk (tasks (working s)))"
    and "pk t = Some j" and "j \<noteq> 0"
    and "status t = SCHEDULED" and "completed t = None" and "exception t = []"
    and "stacktrace t = []" and "modified t = Some (clock s)"
  shows "Task_enqueue t countdown eta s =
     (Returns t,
      s\<lparr>queue := queue s @ [\<lparr>sub_pk = pk t, sub_process_id = process_id t,
                                sub_countdown = countdown, sub_eta = eta\<rparr>]\<rparr>)"
proof -
  have t': "t\<lparr>status := SCHEDULED, completed := None, exception := [], stacktrace := [],
              modified := Some (clock s)\<rparr> = t"
    using assms(7-11) by simp
  have row: "has_row j (working s)"
    using assms(3,5) by (auto simp add: has_row_def)
  have same: "\<And>r. r \<in> set (tasks (working s)) \<Longrightarrow> pk r = Some j \<Longrightarrow> r = t"
    using same_key_same_row [OF assms(4) _ assms(3)] assms(5) by simp
  have idm: "map (\<lambda>r. if pk r = Some j
                 then r\<lparr>status := SCHEDULED, completed := None, exception := [],
                        stacktrace := [], modified := Some (clock s)\<rparr> else r)
               (tasks (working s)) = tasks (working s)"
    by (rule map_idI) (auto dest: same simp add: t')
  have unchanged: "db_write (update_row j (\<lambda>r. r\<lparr>status := SCHEDULED, completed := None,
        exception := [], stacktrace := [], modified := Some (clock s)\<rparr>)) s = s"
    using assms(1,2) by (simp add: db_write_def update_row_def idm)
  show ?thesis
    unfolding enqueue_stored [OF assms(5,6) row] Let_def unchanged t'
    using assms(1,5) by simp
qed

lemma run_hooks_enqueue:
  assumes "depth s = 0" and "committed s = working s"
    and "distinct (map pk (tasks (working s)))"
    and "\<forall>t \<in> set ts. t \<in> set (tasks (working s)) \<and> truthy (pk t) \<and> status t = SCHEDULED \<and>
           completed t = None \<and> exception t = [] \<and> stacktrace t = [] \<and>
           modified t = Some (clock s)"
  shows "run_hooks (map EnqueueHook ts) s =
     (Returns (),
      s\<lparr>queue := queue s @ map (\<lambda>t. \<lparr>sub_pk = pk t, sub_process_id = process_id t,
                                       sub_countdown = None, sub_eta = None\<rparr>) ts\<rparr>)"
  using assms
proof (induction ts arbitrary: s)
  case Nil
  then show ?case by simp
next
  case (Cons t ts)
  obtain j where j: "pk t = Some j" "j \<noteq> 0"
    using Cons.prems(4) by (auto simp add: truthy_def split: option.splits)
  let ?s1 = "s\<lparr>queue := queue s @ [\<lparr>sub_pk = pk t, sub_process_id = process_id t,
                                sub_countdown = None, sub_eta = None\<rparr>]\<rparr>"
  have here: "t \<in> set (tasks (working s))" "status t = SCHEDULED" "completed t = None"
    "exception t = []" "stacktrace t = []" "modified t = Some (clock s)"
    using Cons.prems(4) by simp_all
  have e: "Task_enqueue t None None s = (Returns t, ?s1)"
    by (rule enqueue_fresh [OF Cons.prems(1) Cons.prems(2) here(1) Cons.prems(3) j here(2-6)])
  have rest: "\<forall>t \<in> set ts. t \<in> set (tasks (working ?s1)) \<and> truthy (pk t) \<and>
           status t = SCHEDULED \<and> completed t = None \<and> exception t = [] \<and>
           stacktrace t = [] \<and> modified t = Some (clock ?s1)"
    using Cons.prems(4) by simp
  have "run_hooks (map EnqueueHook ts) ?s1 =
     (Returns (),
      ?s1\<lparr>queue := queue ?s1 @ map (\<lambda>t. \<lparr>sub_pk = pk t, sub_process_id = process_id t,
                                       sub_countdown = None, sub_eta = None\<rparr>) ts\<rparr>)"
    using Cons.prems(1-3) by (intro Cons.IH [OF _ _ _ rest]) simp_all
  then show ?case by (simp add: e)
qed

lemma new_tasks_length: "length (new_tasks i pid now ns) = length ns"
  by (induction ns arbitrary: i) simp_all

lemma new_tasks_names: "map task_node_name (new_tasks i pid now ns) = map node_name ns"
  by (induction ns arbitrary: i) (simp_all add: created_task_def)

lemma new_tasks_types: "map task_node_type (new_tasks i pid now ns) = map node_type ns"
  by (induction ns arbitrary: i) (simp_all add: created_task_def)

lemma new_tasks_keys: "map pk (new_tasks i pid now ns) = map Some [i ..< i + length ns]"
  by (induction ns arbitrary: i) (simp_all add: created_task_def upt_rec)

lemma new_tasks_fields:
  "t \<in> set (new_tasks i pid now ns) \<Longrightarrow>
     process_id t = Some pid \<and> status t = SCHEDULED \<and> completed t = None \<and>
     completed_by_user t = None \<and> exception t = [] \<and> stacktrace t = [] \<and>
     modified t = Some now \<and> created t = Some now"
  by (induction ns arbitrary: i) (auto simp add: created_task_def new_task_def)

lemma enqueued_subset: "set (enqueued ns ts) \<subseteq> set ts"
  by (auto simp add: enqueued_def dest: set_zip_rightD)



lemma keys_distinct_append:
  assumes "well_formed d"
  shows "distinct (map pk (tasks d @ new_tasks (next_task_id d) pid now ns))"
proof -
  have old: "\<And>r. r \<in> set (tasks d) \<Longrightarrow> \<exists>i. pk r = Some i \<and> i < next_task_id d"
    using assms by (auto simp add: well_formed_def)
  have "set (map pk (tasks d)) \<inter> set (map Some [next_task_id d ..< next_task_id d + length ns]) = {}"
    using old by (fastforce simp add: image_iff)
  moreover have "distinct (map pk (tasks d))"
    using assms by (simp add: well_formed_def)
  moreover have "distinct (map Some [next_task_id d ..< next_task_id d + length ns])"
    by (simp add: distinct_map)
  ultimately show ?thesis
    by (simp add: new_tasks_keys del: set_map)
qed

lemma new_tasks_truthy:
  assumes "0 < i" and "t \<in> set (new_tasks i pid now ns)"
  shows "truthy (pk t)"
proof -
  have "pk t \<in> set (map pk (new_tasks i pid now ns))" using assms(2) by simp
  then have "pk t \<in> set (map Some [i ..< i + length ns])" by (simp only: new_tasks_keys)
  then show ?thesis using assms(1) by (auto simp add: truthy_def)
qed



lemma pk_finished [simp]: "pk (finished now r) = pk r"
  by (simp add: finished_def)

lemma finished_idem [simp]: "finished now (finished now r) = finished now r"
  by (simp add: finished_def)

lemma has_row_update_row:
  assumes "\<And>r. pk r = Some i \<Longrightarrow> pk (f r) = Some i"
  shows "has_row j (update_row i f d) = has_row j d"
proof -
  have "(\<exists>r \<in> set (map (\<lambda>r. if pk r = Some i then f r else r) xs). pk r = Some j) =
        (\<exists>r \<in> set xs. pk r = Some j)" for xs
    by (induction xs) (auto simp add: assms)
  then show ?thesis by (simp add: has_row_def update_row_def)
qed

lemma copy_fields_finish:
  "copy_fields [''status'', ''completed'', ''completed_by_user'', ''modified''] a r =
     r\<lparr>status := status a, completed_by_user := completed_by_user a, modified := modified a,
       completed := completed a\<rparr>"
  by (simp add: copy_fields_def)

lemma finish_stored:
  assumes "pk t = Some i" and "i \<noteq> 0" and "has_row i (working s)" and "0 < depth s"
  shows "Task_finish t None s =
     (Returns (finished (clock s) t),
      s\<lparr>working := update_row i (finished (clock s)) (working s)\<rparr>)"
  using assms
  apply (simp add: Task_finish_def Task_save_def truthy_def Model_save_task_def
      task_field_names_def Let_def copy_fields_finish db_write_def)
  apply (simp add: finished_def update_row_def copy_fields_finish)
  done

lemma finish_all_inside:
  assumes "0 < depth s"
    and "\<forall>t \<in> set ts. \<exists>i. pk t = Some i \<and> i \<noteq> 0 \<and> has_row i (working s)"
  shows "finish_all ts s =
     (Returns (),
      s\<lparr>working := (working s)\<lparr>tasks :=
           map (\<lambda>r. if pk r \<in> pk ` set ts then finished (clock s) r else r)
             (tasks (working s))\<rparr>\<rparr>)"
  using assms
proof (induction ts arbitrary: s)
  case Nil
  then show ?case by simp
next
  case (Cons t ts)
  obtain i where i: "pk t = Some i" "i \<noteq> 0" "has_row i (working s)"
    using Cons.prems(2) by auto
  let ?s1 = "s\<lparr>working := update_row i (finished (clock s)) (working s)\<rparr>"
  have one: "Task_finish t None s = (Returns (finished (clock s) t), ?s1)"
    by (rule finish_stored [OF i Cons.prems(1)])
  have d1: "0 < depth ?s1" using Cons.prems(1) by simp
  have rows: "\<forall>t \<in> set ts. \<exists>i. pk t = Some i \<and> i \<noteq> 0 \<and> has_row i (working ?s1)"
    using Cons.prems(2) by (simp add: has_row_update_row)
  have pointwise:
    "map ((\<lambda>r. if pk r \<in> pk ` set ts then finished (clock s) r else r) \<circ>
          (\<lambda>r. if pk r = Some i then finished (clock s) r else r)) xs =
     map (\<lambda>r. if pk r \<in> pk ` set (t # ts) then finished (clock s) r else r) xs" for xs
    using i(1) by (intro map_cong [OF refl]) auto
  show ?case
  proof -
    have c1: "clock ?s1 = clock s" by simp
    show ?thesis
      unfolding finish_all.simps one prod.case outcome.case Cons.IH [OF d1 rows] c1
      by (simp add: update_row_def pointwise)
  qed
qed



lemma atomic_commit_enqueue:
  assumes body: "body (s\<lparr>depth := Suc (depth s)\<rparr>) =
        (Returns r, s\<lparr>depth := Suc (depth s), working := W,
                       hooks := hooks s @ map EnqueueHook ts\<rparr>)"
    and idle: "depth s = 0 \<longrightarrow> hooks s = []"
    and keys: "depth s = 0 \<longrightarrow> distinct (map pk (tasks W))"
    and rows: "depth s = 0 \<longrightarrow>
         (\<forall>t \<in> set ts. t \<in> set (tasks W) \<and> truthy (pk t) \<and> status t = SCHEDULED \<and>
            completed t = None \<and> exception t = [] \<and> stacktrace t = [] \<and>
            modified t = Some (clock s))"
  shows "atomic body s =
     (Returns r,
      if 0 < depth s then s\<lparr>working := W, hooks := hooks s @ map EnqueueHook ts\<rparr>
      else s\<lparr>working := W, committed := W,
             queue := queue s @ map (\<lambda>t. \<lparr>sub_pk = pk t, sub_process_id = process_id t,
                         sub_countdown = None, sub_eta = None\<rparr>) ts\<rparr>)"
proof (cases "depth s = 0")
  case False
  then show ?thesis
    unfolding atomic_def body by simp
next
  case True
  then have h: "hooks s = []" using idle by simp
  let ?X = "s\<lparr>depth := Suc (depth s), working := W, hooks := hooks s @ map EnqueueHook ts\<rparr>"
  let ?s2 = "s\<lparr>working := W, committed := W\<rparr>"
  have a: "atomic body s =
      (case run_hooks (hooks ?X) (?X\<lparr>depth := 0, committed := working ?X, hooks := []\<rparr>) of
         (Raises e, s2) \<Rightarrow> (Raises e, s2)
       | (Returns u, s2) \<Rightarrow> (Returns r, s2))"
    unfolding atomic_def body by (simp add: True)
  have b: "hooks ?X = map EnqueueHook ts"
    by (simp add: h)
  have c: "?X\<lparr>depth := 0, committed := working ?X, hooks := []\<rparr> = ?s2"
    by (rule state.equality) (simp_all add: True h)
  have d: "distinct (map pk (tasks (working ?s2)))"
    using keys True by simp
  have each: "\<forall>t \<in> set ts. t \<in> set (tasks (working ?s2)) \<and> truthy (pk t) \<and>
         status t = SCHEDULED \<and> completed t = None \<and> exception t = [] \<and> stacktrace t = [] \<and>
         modified t = Some (clock ?s2)"
    using rows True by simp
  have run: "run_hooks (map EnqueueHook ts) ?s2 =
     (Returns (),
      ?s2\<lparr>queue := queue ?s2 @ map (\<lambda>t. \<lparr>sub_pk = pk t, sub_process_id = process_id t,
                           sub_countdown = None, sub_eta = None\<rparr>) ts\<rparr>)"
    using True by (intro run_hooks_enqueue [OF _ _ d each]) simp_all
  show ?thesis
    unfolding a b c run
    using True by simp
qed

lemma start_next_tasks_nodes:
  assumes "pk self = Some p" and "process_id self = Some pid"
    and "\<forall>n \<in> set ns. create_task n = None"
    and "depth s = 0 \<longrightarrow> hooks s = [] \<and> well_formed (working s)"
  shows "atomic (start_next_tasks_loop create_task self (map Returns ns) []) s =
     (let k = next_task_id (working s);
          new = new_tasks k pid (clock s) ns;
          W = (working s)\<lparr>tasks := tasks (working s) @ new,
                links := links (working s) \<union> (\<lambda>i. (i, p)) ` {k ..< k + length ns},
                next_task_id := k + length ns\<rparr>
      in (Returns new,
          if 0 < depth s
          then s\<lparr>working := W, hooks := hooks s @ map EnqueueHook (enqueued ns new)\<rparr>
          else s\<lparr>working := W, committed := W,
                 queue := queue s @ map (\<lambda>t. \<lparr>sub_pk = pk t, sub_process_id = process_id t,
                             sub_countdown = None, sub_eta = None\<rparr>) (enqueued ns new)\<rparr>))"
proof -
  let ?k = "next_task_id (working s)"
  let ?new = "new_tasks ?k pid (clock s) ns"
  let ?W = "(working s)\<lparr>tasks := tasks (working s) @ ?new,
                links := links (working s) \<union> (\<lambda>i. (i, p)) ` {?k ..< ?k + length ns},
                next_task_id := ?k + length ns\<rparr>"
  let ?s0 = "s\<lparr>depth := Suc (depth s)\<rparr>"
  have body: "start_next_tasks_loop create_task self (map Returns ns) [] ?s0 =
      (Returns ?new, s\<lparr>depth := Suc (depth s), working := ?W,
                        hooks := hooks s @ map EnqueueHook (enqueued ns ?new)\<rparr>)"
    using loop_inside [OF assms(1) assms(2) _ assms(3), of ?s0 "[]"] by simp
  have keys: "depth s = 0 \<longrightarrow> distinct (map pk (tasks ?W))"
    using assms(4) keys_distinct_append [of "working s" pid "clock s" ns] by simp
  have rows: "depth s = 0 \<longrightarrow>
         (\<forall>t \<in> set (enqueued ns ?new). t \<in> set (tasks ?W) \<and> truthy (pk t) \<and>
            status t = SCHEDULED \<and> completed t = None \<and> exception t = [] \<and>
            stacktrace t = [] \<and> modified t = Some (clock s))"
  proof (intro impI ballI)
    fix t assume z: "depth s = 0" and "t \<in> set (enqueued ns ?new)"
    then have m: "t \<in> set ?new" using enqueued_subset by blast
    have k: "0 < ?k" using assms(4) z by (simp add: well_formed_def)
    show "t \<in> set (tasks ?W) \<and> truthy (pk t) \<and> status t = SCHEDULED \<and> completed t = None \<and>
          exception t = [] \<and> stacktrace t = [] \<and> modified t = Some (clock s)"
      using m new_tasks_fields [OF m] new_tasks_truthy [OF k m] by simp
  qed
  have idle: "depth s = 0 \<longrightarrow> hooks s = []" using assms(4) by simp
  show ?thesis
    unfolding Let_def
    by (rule atomic_commit_enqueue
          [where body = "start_next_tasks_loop create_task self (map Returns ns) []" and s = s,
           OF body idle keys rows])
qed



lemma new_keys_fresh:
  assumes "well_formed d" and "r \<in> set (tasks d)"
  shows "pk r \<notin> set (map pk (new_tasks (next_task_id d) pid now ns))"
proof -
  obtain i where "pk r = Some i" "i < next_task_id d"
    using assms by (auto simp add: well_formed_def)
  then show ?thesis by (auto simp add: new_tasks_keys)
qed

subsection \<open>The override view, step by step\<close>

lemma db_write_fields [simp]:
  "working (db_write f s) = f (working s)"
  "committed (db_write f s) = (if depth s = 0 then f (working s) else committed s)"
  "depth (db_write f s) = depth s"
  "hooks (db_write f s) = hooks s"
  "queue (db_write f s) = queue s"
  "clock (db_write f s) = clock s"
  by (simp_all add: db_write_def Let_def)

lemma update_process_fields [simp]:
  "tasks (update_process i f d) = tasks d"
  "links (update_process i f d) = links d"
  "next_task_id (update_process i f d) = next_task_id d"
  "next_process_id (update_process i f d) = next_process_id d"
  by (simp_all add: update_process_def)

lemma update_row_fields [simp]:
  "links (update_row i f d) = links d"
  "processes (update_row i f d) = processes d"
  "next_task_id (update_row i f d) = next_task_id d"
  "next_process_id (update_row i f d) = next_process_id d"
  by (simp_all add: update_row_def)

lemma db_write_inside: "0 < depth s \<Longrightarrow> db_write f s = s\<lparr>working := f (working s)\<rparr>"
  by (simp add: db_write_def)

lemma start_next_tasks_body_Some:
  "start_next_tasks_body create_task cls self (Some ns) =
     start_next_tasks_loop create_task self ns []"
  by (rule ext) (simp add: start_next_tasks_body_def)

lemma active_keys:
  assumes "well_formed d" and "r \<in> set (tasks d)"
  shows "(pk r \<in> pk ` set (filter P (tasks d))) = P r"
proof
  assume "pk r \<in> pk ` set (filter P (tasks d))"
  then obtain t where t: "t \<in> set (tasks d)" "P t" "pk r = pk t" by auto
  have "distinct (map pk (tasks d))" using assms(1) by (simp add: well_formed_def)
  from same_key_same_row [OF this assms(2) t(1) t(3)] t(2) show "P r" by simp
next
  assume "P r"
  then show "pk r \<in> pk ` set (filter P (tasks d))" using assms(2) by auto
qed

lemma set_parent_links:
  assumes "\<forall>t \<in> set ts. pk t \<noteq> None"
  shows "set (concat (map (\<lambda>p. case pk p of None \<Rightarrow> [] | Some i \<Rightarrow> [(c, i)]) ts)) =
         (\<lambda>i. (c, i)) ` {i. \<exists>t \<in> set ts. pk t = Some i}"
  using assms by (induction ts) (auto split: option.splits)

lemma form_valid_body_inside:
  assumes inside: "0 < depth s" and wf: "well_formed (working s)"
    and obj: "p_pk object = Some pid" "pid \<noteq> 0" "has_process pid (working s)"
    and names: "get_next_task_nodes iter cls node_names = map Returns nodes"
    and own: "\<forall>n \<in> set nodes. create_task n = None"
  shows "form_valid_body create_task iter cls object node_names s =
    (let now = clock s; k = next_task_id (working s);
         new = new_tasks (Suc k) pid now nodes
     in (Returns new,
         s\<lparr>working := (working s)\<lparr>
              tasks := map (\<lambda>r. if process_id r = Some pid \<and> completed r = None
                                 then finished now r else r) (tasks (working s)) @
                       finished now (created_task k pid ''manual_override'' [] now) # new,
              links := links (working s) \<union>
                       (\<lambda>i. (k, i)) ` {i. \<exists>t \<in> set (tasks (working s)).
                           process_id t = Some pid \<and> completed t = None \<and> pk t = Some i} \<union>
                       (\<lambda>i. (i, k)) ` {Suc k ..< Suc k + length nodes},
              processes := map (\<lambda>r. if p_pk r = Some pid
                                     then object\<lparr>p_modified := Some now\<rparr> else r)
                             (processes (working s)),
              next_task_id := Suc k + length nodes\<rparr>,
           hooks := hooks s @ map EnqueueHook (enqueued nodes new)\<rparr>))"
proof -
  let ?now = "clock s"
  let ?k = "next_task_id (working s)"
  let ?P = "\<lambda>t. process_id t = Some pid \<and> completed t = None"
  let ?obj = "object\<lparr>p_modified := Some ?now\<rparr>"
  let ?act = "filter ?P (tasks (working s))"
  let ?ov = "created_task ?k pid ''manual_override'' [] ?now"
  let ?new = "new_tasks (Suc ?k) pid ?now nodes"
  let ?s1 = "db_write (update_process pid (\<lambda>r. ?obj)) s"
  let ?s2 = "?s1\<lparr>working := (working ?s1)\<lparr>tasks :=
           map (\<lambda>r. if pk r \<in> pk ` set ?act then finished ?now r else r)
             (tasks (working ?s1))\<rparr>\<rparr>"
  let ?s3 = "db_write (\<lambda>d. d\<lparr>tasks := tasks d @ [?ov], next_task_id := Suc ?k\<rparr>) ?s2"
  let ?s4 = "db_write (\<lambda>d. d\<lparr>links := {l \<in> links d. fst l \<noteq> ?k} \<union>
                 set (concat (map (\<lambda>p. case pk p of None \<Rightarrow> [] | Some i \<Rightarrow> [(?k, i)]) ?act))\<rparr>) ?s3"
  let ?s5 = "?s4\<lparr>working := update_row ?k (finished ?now) (working ?s4)\<rparr>"
  have old: "\<And>r. r \<in> set (tasks (working s)) \<Longrightarrow> \<exists>i. pk r = Some i \<and> 0 < i \<and> i < ?k"
    using wf by (auto simp add: well_formed_def)
  have k0: "0 < ?k" using wf by (simp add: well_formed_def)
  have d1: "0 < depth ?s1" "0 < depth ?s2" "0 < depth ?s3" "0 < depth ?s4" "0 < depth ?s5"
    using inside by simp_all
  have c1: "clock ?s1 = ?now" "clock ?s2 = ?now" "clock ?s4 = ?now"
    by simp_all
  have t1: "tasks (working ?s1) = tasks (working s)"
    by simp
  have p1: "Process_save object None s = (Returns ?obj, ?s1)"
    using obj by (simp add: Process_save_def Model_save_process_def truthy_def Let_def)
  have p2: "p_pk ?obj = Some pid" using obj(1) by simp
  have a: "active_tasks pid ?s1 = ?act"
    by (simp add: active_tasks_def)
  have rows1: "\<forall>t \<in> set ?act. \<exists>i. pk t = Some i \<and> i \<noteq> 0 \<and> has_row i (working ?s1)"
  proof
    fix t assume "t \<in> set ?act"
    then have m: "t \<in> set (tasks (working s))" by simp
    with old [OF m] show "\<exists>i. pk t = Some i \<and> i \<noteq> 0 \<and> has_row i (working ?s1)"
      by (auto simp add: has_row_def)
  qed
  have f: "finish_all ?act ?s1 = (Returns (), ?s2)"
    using finish_all_inside [OF d1(1) rows1] by simp
  have k2: "next_task_id (working ?s2) = ?k"
    by simp
  have c: "task_set_create pid ''manual_override'' [] ?s2 = (Returns ?ov, ?s3)"
    by (simp add: task_set_create_eq)
  have nonone: "\<not> (\<exists>p \<in> set ?act. pk p = None)"
    using rows1 by auto
  have ovk: "pk ?ov = Some ?k" by (simp add: created_task_def)
  have l: "parent_task_set_set ?ov ?act ?s3 = (Returns (), ?s4)"
    using nonone by (simp add: parent_task_set_set_def ovk)
  have row4: "has_row ?k (working ?s4)"
    by (simp add: has_row_def ovk)
  have fin: "Task_finish ?ov None ?s4 = (Returns (finished ?now ?ov), ?s5)"
    using k0 finish_stored [OF ovk _ row4 d1(4)] by simp
  let ?ov' = "finished ?now ?ov"
  let ?s6 = "?s5\<lparr>working := (working ?s5)\<lparr>tasks := tasks (working ?s5) @ ?new,
                links := links (working ?s5) \<union> (\<lambda>i. (i, ?k)) ` {Suc ?k ..< Suc ?k + length nodes},
                next_task_id := Suc ?k + length nodes\<rparr>,
              hooks := hooks ?s5 @ map EnqueueHook (enqueued nodes ?new)\<rparr>"
  have ov': "pk ?ov' = Some ?k" "process_id ?ov' = Some pid"
    by (simp_all add: created_task_def finished_def)
  have nested: "depth ?s5 = 0 \<longrightarrow> hooks ?s5 = [] \<and> well_formed (working ?s5)"
    using d1(5) by simp
  have nx: "Task_start_next_tasks create_task cls ?ov' (Some (map Returns nodes)) ?s5 =
      (Returns ?new, ?s6)"
    using start_next_tasks_nodes [OF ov' own nested] d1(5)
    by (simp add: Task_start_next_tasks_def start_next_tasks_body_Some Let_def)
  have run: "form_valid_body create_task iter cls object node_names s = (Returns ?new, ?s6)"
    by (simp only: form_valid_body_def Let_def names p1 p2 a f c l fin nx prod.case
        outcome.case option.case)
  have T2: "map (\<lambda>r. if pk r \<in> pk ` set ?act then finished ?now r else r) (tasks (working s)) =
        map (\<lambda>r. if ?P r then finished ?now r else r) (tasks (working s))"
    by (rule map_cong [OF refl]) (simp only: active_keys [OF wf, of _ ?P])
  have nok: "map (\<lambda>r. if pk r = Some ?k then finished ?now r else r)
               (map (\<lambda>r. if ?P r then finished ?now r else r) (tasks (working s))) =
             map (\<lambda>r. if ?P r then finished ?now r else r) (tasks (working s))"
    by (rule map_idI) (auto dest!: old)
  have T: "tasks (working ?s6) =
      map (\<lambda>r. if ?P r then finished ?now r else r) (tasks (working s)) @ ?ov' # ?new"
    by (simp add: update_row_def T2 nok ovk del: map_map set_filter)
  have nolink: "{l \<in> links (working s). fst l \<noteq> ?k} = links (working s)"
  proof -
    have "\<And>c p. (c, p) \<in> links (working s) \<Longrightarrow> c \<noteq> ?k"
      using wf old by (fastforce simp add: well_formed_def has_row_def)
    then show ?thesis by auto
  qed
  have pl: "set (concat (map (\<lambda>p. case pk p of None \<Rightarrow> [] | Some i \<Rightarrow> [(?k, i)]) ?act)) =
      (\<lambda>i. (?k, i)) ` {i. \<exists>t \<in> set (tasks (working s)). ?P t \<and> pk t = Some i}"
    using nonone by (subst set_parent_links) auto
  have L: "links (working ?s6) =
      links (working s) \<union>
        (\<lambda>i. (?k, i)) ` {i. \<exists>t \<in> set (tasks (working s)). ?P t \<and> pk t = Some i} \<union>
        (\<lambda>i. (i, ?k)) ` {Suc ?k ..< Suc ?k + length nodes}"
    by (simp add: nolink pl del: set_concat set_map set_filter)
  have PR: "processes (working ?s6) =
      map (\<lambda>r. if p_pk r = Some pid then ?obj else r) (processes (working s))"
    by (simp add: update_process_def)
  have W: "working ?s6 = (working s)\<lparr>
              tasks := map (\<lambda>r. if ?P r then finished ?now r else r) (tasks (working s)) @
                       ?ov' # ?new,
              links := links (working s) \<union>
                       (\<lambda>i. (?k, i)) ` {i. \<exists>t \<in> set (tasks (working s)). ?P t \<and> pk t = Some i} \<union>
                       (\<lambda>i. (i, ?k)) ` {Suc ?k ..< Suc ?k + length nodes},
              processes := map (\<lambda>r. if p_pk r = Some pid then ?obj else r)
                             (processes (working s)),
              next_task_id := Suc ?k + length nodes\<rparr>"
    by (rule db.equality) (simp_all only: T L PR, simp_all)
  have S: "?s6 = s\<lparr>working := working ?s6,
                    hooks := hooks s @ map EnqueueHook (enqueued nodes ?new)\<rparr>"
    using inside by (intro state.equality) simp_all
  show ?thesis
    unfolding run Let_def
    by (subst S, subst W) simp
qed

lemma get_node_Returns:
  assumes "get_node iter cls name = Returns n"
  shows "node_name n = name \<and> n \<in> set (iter (node_set cls))"
proof -
  have "map_of (rev (get_nodes iter cls)) name = Some n"
    using assms by (simp add: get_node_def split: option.splits)
  then have "(name, n) \<in> set (rev (get_nodes iter cls))"
    by (rule map_of_SomeD)
  then show ?thesis by (auto simp add: get_nodes_def)
qed

lemma get_next_task_nodes_Returns:
  assumes "get_next_task_nodes iter cls node_names = map Returns nodes"
  shows "map node_name nodes = node_names \<and> set nodes \<subseteq> set (iter (node_set cls))"
  using assms
proof (induction node_names arbitrary: nodes)
  case Nil
  then show ?case by (simp add: get_next_task_nodes_def)
next
  case (Cons a node_names)
  then obtain n ns where ns: "nodes = n # ns" "get_node iter cls a = Returns n"
    "get_next_task_nodes iter cls node_names = map Returns ns"
    by (cases nodes) (auto simp add: get_next_task_nodes_def)
  from Cons.IH [OF ns(3)] get_node_Returns [OF ns(2)] ns(1) show ?case by simp
qed

lemma keys_distinct_override:
  assumes "well_formed d" and "\<And>r. pk (g r) = pk r" and "pk ov = Some (next_task_id d)"
  shows "distinct (map pk (map g (tasks d) @ ov # new_tasks (Suc (next_task_id d)) pid now ns))"
proof -
  have old: "\<And>r. r \<in> set (tasks d) \<Longrightarrow> \<exists>i. pk r = Some i \<and> i < next_task_id d"
    using assms(1) by (auto simp add: well_formed_def)
  have g: "map pk (map g (tasks d)) = map pk (tasks d)"
    by (simp add: assms(2))
  have a: "distinct (map pk (tasks d))"
    using assms(1) by (simp add: well_formed_def)
  have b: "distinct (map Some [Suc (next_task_id d) ..< Suc (next_task_id d) + length ns])"
    by (simp add: distinct_map)
  have c: "Some (next_task_id d) \<notin> set (map pk (tasks d))"
    using old by fastforce
  have e: "set (map pk (tasks d)) \<inter>
           set (map Some [Suc (next_task_id d) ..< Suc (next_task_id d) + length ns]) = {}"
    using old by (fastforce simp add: image_iff)
  have f: "Some (next_task_id d) \<notin>
           set (map Some [Suc (next_task_id d) ..< Suc (next_task_id d) + length ns])"
    by auto
  show ?thesis
    unfolding map_append list.map g new_tasks_keys assms(3) distinct_append distinct.simps
    using a b c e f by (simp del: set_map upt_Suc set_upt)
qed

lemma form_valid_eq:
  assumes wf: "well_formed (working s)" and idle: "depth s = 0 \<longrightarrow> hooks s = []"
    and obj: "p_pk object = Some pid" "pid \<noteq> 0" "has_process pid (working s)"
    and names: "get_next_task_nodes iter cls node_names = map Returns nodes"
    and own: "\<forall>n \<in> set nodes. create_task n = None"
  shows "form_valid create_task iter cls object node_names s =
    (let now = clock s; k = next_task_id (working s);
         new = new_tasks (Suc k) pid now nodes;
         W = (working s)\<lparr>
              tasks := map (\<lambda>r. if process_id r = Some pid \<and> completed r = None
                                 then finished now r else r) (tasks (working s)) @
                       finished now (created_task k pid ''manual_override'' [] now) # new,
              links := links (working s) \<union>
                       (\<lambda>i. (k, i)) ` {i. \<exists>t \<in> set (tasks (working s)).
                           process_id t = Some pid \<and> completed t = None \<and> pk t = Some i} \<union>
                       (\<lambda>i. (i, k)) ` {Suc k ..< Suc k + length nodes},
              processes := map (\<lambda>r. if p_pk r = Some pid
                                     then object\<lparr>p_modified := Some now\<rparr> else r)
                             (processes (working s)),
              next_task_id := Suc k + length nodes\<rparr>
     in (Returns new,
         if 0 < depth s
         then s\<lparr>working := W, hooks := hooks s @ map EnqueueHook (enqueued nodes new)\<rparr>
         else s\<lparr>working := W, committed := W,
                queue := queue s @ map (\<lambda>t. \<lparr>sub_pk = pk t, sub_process_id = process_id t,
                            sub_countdown = None, sub_eta = None\<rparr>) (enqueued nodes new)\<rparr>))"
proof -
  let ?now = "clock s"
  let ?k = "next_task_id (working s)"
  let ?new = "new_tasks (Suc ?k) pid ?now nodes"
  let ?g = "\<lambda>r. if process_id r = Some pid \<and> completed r = None then finished ?now r else r"
  let ?ov = "finished ?now (created_task ?k pid ''manual_override'' [] ?now)"
  let ?W = "(working s)\<lparr>
              tasks := map ?g (tasks (working s)) @ ?ov # ?new,
              links := links (working s) \<union>
                       (\<lambda>i. (?k, i)) ` {i. \<exists>t \<in> set (tasks (working s)).
                           process_id t = Some pid \<and> completed t = None \<and> pk t = Some i} \<union>
                       (\<lambda>i. (i, ?k)) ` {Suc ?k ..< Suc ?k + length nodes},
              processes := map (\<lambda>r. if p_pk r = Some pid
                                     then object\<lparr>p_modified := Some ?now\<rparr> else r)
                             (processes (working s)),
              next_task_id := Suc ?k + length nodes\<rparr>"
  let ?s0 = "s\<lparr>depth := Suc (depth s)\<rparr>"
  have body: "form_valid_body create_task iter cls object node_names ?s0 =
      (Returns ?new, s\<lparr>depth := Suc (depth s), working := ?W,
                        hooks := hooks s @ map EnqueueHook (enqueued nodes ?new)\<rparr>)"
    using form_valid_body_inside [of ?s0 object pid iter cls node_names nodes create_task]
      wf obj names own
    by (simp add: Let_def)
  have gpk: "\<And>r. pk (?g r) = pk r" by simp
  have ovk: "pk ?ov = Some ?k" by (simp add: created_task_def)
  have keys: "depth s = 0 \<longrightarrow> distinct (map pk (tasks ?W))"
    using keys_distinct_override [OF wf gpk ovk, of pid ?now nodes]
    by (simp del: map_map map_append list.map)
  have rows: "depth s = 0 \<longrightarrow>
         (\<forall>t \<in> set (enqueued nodes ?new). t \<in> set (tasks ?W) \<and> truthy (pk t) \<and>
            status t = SCHEDULED \<and> completed t = None \<and> exception t = [] \<and>
            stacktrace t = [] \<and> modified t = Some (clock s))"
  proof (intro impI ballI)
    fix t assume "t \<in> set (enqueued nodes ?new)"
    then have m: "t \<in> set ?new" using enqueued_subset by blast
    have k: "0 < Suc ?k" by simp
    show "t \<in> set (tasks ?W) \<and> truthy (pk t) \<and> status t = SCHEDULED \<and> completed t = None \<and>
          exception t = [] \<and> stacktrace t = [] \<and> modified t = Some (clock s)"
      using m new_tasks_fields [OF m] new_tasks_truthy [OF k m] by simp
  qed
  show ?thesis
    unfolding Let_def form_valid_def
    by (rule atomic_commit_enqueue
          [where body = "form_valid_body create_task iter cls object node_names" and s = s,
           OF body idle keys rows])
qed

subsection \<open>Links between tasks\<close>

lemma acyclic_extend:
  assumes ac: "acyclic r"
    and old: "\<forall>(c, q) \<in> r. c < k \<and> q < k"
    and new: "\<forall>(c, q) \<in> A. k \<le> c \<and> q < (c :: nat)"
  shows "acyclic (r \<union> A)"
proof -
  have down: "(x, y) \<in> (r \<union> A)\<^sup>+ \<Longrightarrow> k \<le> y \<Longrightarrow> y < x" for x y
  proof (induction rule: trancl_induct)
    case (base y)
    then show ?case using old new by auto
  next
    case (step y z)
    from step.hyps(2) step.prems have yz: "(y, z) \<in> A"
      using old by auto
    then have "k \<le> y" "z < y" using new by auto
    with step.IH show ?case by simp
  qed
  have stay: "(x, y) \<in> (r \<union> A)\<^sup>+ \<Longrightarrow> x < k \<Longrightarrow> (x, y) \<in> r\<^sup>+" for x y
  proof (induction rule: trancl_induct)
    case (base y)
    then show ?case using new by auto
  next
    case (step y z)
    then have xy: "(x, y) \<in> r\<^sup>+" by simp
    then have "y \<in> Range r" by (metis Range_iff trancl_range)
    then have "y < k" using old by auto
    then have "(y, z) \<in> r" using step.hyps(2) new by auto
    with xy show ?case by (rule trancl_into_trancl)
  qed
  show ?thesis
  proof (rule acyclicI, rule allI, rule notI)
    fix x assume c: "(x, x) \<in> (r \<union> A)\<^sup>+"
    show False
    proof (cases "x < k")
      case True
      from stay [OF c True] ac show False by (simp add: acyclic_def)
    next
      case False
      then have "k \<le> x" by simp
      from down [OF c this] show False by simp
    qed
  qed
qed

lemma links_step:
  assumes wf: "well_formed d" and ac: "acyclic (links d)"
    and T: "map pk (tasks d') = map pk (tasks d) @ map Some [next_task_id d ..< next_task_id d + m]"
    and N: "next_task_id d' = next_task_id d + m"
    and L: "links d' = links d \<union> A"
    and A: "\<forall>(c, q) \<in> A. next_task_id d \<le> c \<and> c < next_task_id d + m \<and> q < c \<and>
               (has_row q d \<or> next_task_id d \<le> q)"
  shows "appends_links d d' \<and> acyclic (links d') \<and> well_formed d'"
proof -
  let ?k = "next_task_id d"
  have row: "has_row i e = (Some i \<in> set (map pk (tasks e)))" for i e
    by (force simp add: has_row_def image_iff)
  have old: "has_row i d \<Longrightarrow> 0 < i \<and> i < ?k" for i
    using wf by (fastforce simp add: well_formed_def has_row_def)
  have row': "has_row i d' = (has_row i d \<or> (?k \<le> i \<and> i < ?k + m))" for i
    unfolding row T by auto
  have k0: "0 < ?k" using wf by (simp add: well_formed_def)
  have lk: "\<forall>(c, q) \<in> links d. c < ?k \<and> q < ?k"
    using wf old by (fastforce simp add: well_formed_def)
  have a1: "appends_links d d'"
    unfolding appends_links_def L using A old row' by fastforce
  have a2: "acyclic (links d')"
    unfolding L using A by (intro acyclic_extend [OF ac lk]) auto
  have keys: "\<forall>r \<in> set (tasks d'). \<exists>i. pk r = Some i \<and> 0 < i \<and> i < next_task_id d'"
  proof
    fix r assume "r \<in> set (tasks d')"
    then have "pk r \<in> set (map pk (tasks d'))" by simp
    then have "pk r \<in> set (map pk (tasks d)) \<or> pk r \<in> set (map Some [?k ..< ?k + m])"
      unfolding T by simp
    then show "\<exists>i. pk r = Some i \<and> 0 < i \<and> i < next_task_id d'"
    proof
      assume "pk r \<in> set (map pk (tasks d))"
      then obtain r' where "r' \<in> set (tasks d)" "pk r = pk r'" by auto
      then show ?thesis using wf N by (fastforce simp add: well_formed_def)
    next
      assume "pk r \<in> set (map Some [?k ..< ?k + m])"
      then show ?thesis using k0 N by auto
    qed
  qed
  have dist: "distinct (map pk (tasks d'))"
  proof -
    have "set (map pk (tasks d)) \<inter> set (map Some [?k ..< ?k + m]) = {}"
      using old by (fastforce simp add: has_row_def image_iff)
    moreover have "distinct (map pk (tasks d))" using wf by (simp add: well_formed_def)
    moreover have "distinct (map Some [?k ..< ?k + m])" by (simp add: distinct_map)
    ultimately show ?thesis unfolding T by (simp del: set_map)
  qed
  have within: "\<forall>(c, p) \<in> links d'. has_row c d' \<and> has_row p d'"
  proof -
    have "\<forall>(c, p) \<in> links d. has_row c d' \<and> has_row p d'"
      using wf row' by (fastforce simp add: well_formed_def)
    moreover have "\<forall>(c, p) \<in> A. has_row c d' \<and> has_row p d'"
      using A row' by fastforce
    ultimately show ?thesis unfolding L by auto
  qed
  have a3: "well_formed d'"
    unfolding well_formed_def using keys dist within k0 N by simp
  show ?thesis using a1 a2 a3 by simp
qed

lemma start_next_tasks_links:
  assumes wf: "well_formed (working s)" and ac: "acyclic (links (working s))"
    and idle: "depth s = 0 \<longrightarrow> hooks s = []"
    and self: "pk self = Some p" "has_row p (working s)" "process_id self = Some pid"
    and own: "\<forall>n \<in> set ns. create_task n = None"
  shows "appends_links (working s)
           (working (snd (atomic (start_next_tasks_loop create_task self (map Returns ns) []) s))) \<and>
         acyclic (links (working (snd (atomic
           (start_next_tasks_loop create_task self (map Returns ns) []) s)))) \<and>
         well_formed (working (snd (atomic
           (start_next_tasks_loop create_task self (map Returns ns) []) s)))"
proof -
  let ?k = "next_task_id (working s)"
  let ?new = "new_tasks ?k pid (clock s) ns"
  let ?W = "(working s)\<lparr>tasks := tasks (working s) @ ?new,
                links := links (working s) \<union> (\<lambda>i. (i, p)) ` {?k ..< ?k + length ns},
                next_task_id := ?k + length ns\<rparr>"
  have idle': "depth s = 0 \<longrightarrow> hooks s = [] \<and> well_formed (working s)"
    using idle wf by simp
  have w: "working (snd (atomic (start_next_tasks_loop create_task self (map Returns ns) []) s)) = ?W"
    unfolding start_next_tasks_nodes [OF self(1,3) own idle'] Let_def by simp
  have pk: "p < ?k"
    using wf self(2) by (fastforce simp add: well_formed_def has_row_def)
  have A: "\<forall>(c, q) \<in> (\<lambda>i. (i, p)) ` {?k ..< ?k + length ns}.
             ?k \<le> c \<and> c < ?k + length ns \<and> q < c \<and> (has_row q (working s) \<or> ?k \<le> q)"
    using pk self(2) by auto
  show ?thesis
    unfolding w
    by (rule links_step [OF wf ac _ _ _ A]) (simp_all add: new_tasks_keys)
qed

lemma form_valid_links:
  assumes wf: "well_formed (working s)" and ac: "acyclic (links (working s))"
    and idle: "depth s = 0 \<longrightarrow> hooks s = []"
    and obj: "p_pk object = Some pid" "pid \<noteq> 0" "has_process pid (working s)"
    and names: "get_next_task_nodes iter cls node_names = map Returns nodes"
    and own: "\<forall>n \<in> set nodes. create_task n = None"
  shows "appends_links (working s)
           (working (snd (form_valid create_task iter cls object node_names s))) \<and>
         acyclic (links (working (snd (form_valid create_task iter cls object node_names s)))) \<and>
         well_formed (working (snd (form_valid create_task iter cls object node_names s)))"
proof -
  let ?now = "clock s"
  let ?k = "next_task_id (working s)"
  let ?new = "new_tasks (Suc ?k) pid ?now nodes"
  let ?A1 = "(\<lambda>i. (?k, i)) ` {i. \<exists>t \<in> set (tasks (working s)).
                process_id t = Some pid \<and> completed t = None \<and> pk t = Some i}"
  let ?A2 = "(\<lambda>i. (i, ?k)) ` {Suc ?k ..< Suc ?k + length nodes}"
  let ?W = "(working s)\<lparr>
              tasks := map (\<lambda>r. if process_id r = Some pid \<and> completed r = None
                                 then finished ?now r else r) (tasks (working s)) @
                       finished ?now (created_task ?k pid ''manual_override'' [] ?now) # ?new,
              links := links (working s) \<union> ?A1 \<union> ?A2,
              processes := map (\<lambda>r. if p_pk r = Some pid
                                     then object\<lparr>p_modified := Some ?now\<rparr> else r)
                             (processes (working s)),
              next_task_id := Suc ?k + length nodes\<rparr>"
  have w: "working (snd (form_valid create_task iter cls object node_names s)) = ?W"
    unfolding form_valid_eq [OF wf idle obj names own] Let_def by simp
  have old: "\<And>t. t \<in> set (tasks (working s)) \<Longrightarrow> \<exists>i. pk t = Some i \<and> i < ?k"
    using wf by (auto simp add: well_formed_def)
  have A: "\<forall>(c, q) \<in> ?A1 \<union> ?A2.
             ?k \<le> c \<and> c < ?k + Suc (length nodes) \<and> q < c \<and> (has_row q (working s) \<or> ?k \<le> q)"
    using old by (fastforce simp add: has_row_def)
  have T: "map pk (tasks ?W) = map pk (tasks (working s)) @ map Some [?k ..< ?k + Suc (length nodes)]"
    by (simp add: new_tasks_keys created_task_def upt_rec [of ?k] comp_def del: upt_Suc)
  have L: "links ?W = links (working s) \<union> (?A1 \<union> ?A2)"
    by (simp add: Un_assoc)
  show ?thesis
    unfolding w
    by (rule links_step [OF wf ac T _ L A]) simp
qed

lemma atomic_rollback:
  assumes "fst (atomic body s) = Raises e" and "0 < depth s"
  shows "working (snd (atomic body s)) = working s"
  using assms by (auto simp add: atomic_def split: prod.splits outcome.splits)

subsection \<open>What every step keeps\<close>

lemma safe_step_refl: "commit_safe s \<Longrightarrow> safe_step s s"
  by (simp add: safe_step_def)

lemma safe_step_trans: "safe_step s s1 \<Longrightarrow> safe_step s1 s2 \<Longrightarrow> safe_step s s2"
  by (auto simp add: safe_step_def)

lemma hook_ready_mono:
  "hook_ready d h \<Longrightarrow> (\<And>i. has_row i d \<Longrightarrow> has_row i d') \<Longrightarrow> hook_ready d' h"
  by (auto simp add: hook_ready_def split: hook.splits)

lemma db_write_safe:
  assumes "commit_safe s" and "\<And>d i. has_row i d \<Longrightarrow> has_row i (f d)"
  shows "safe_step s (db_write f s)"
  using assms
  by (auto simp add: safe_step_def commit_safe_def intro: hook_ready_mono)

lemma has_row_insert_row: "has_row i d \<Longrightarrow> has_row i (insert_row t d)"
  by (auto simp add: has_row_def insert_row_def)

lemma has_row_insert_row_new: "pk t = Some i \<Longrightarrow> has_row i (insert_row t d)"
  by (auto simp add: has_row_def insert_row_def)

lemma has_row_next_id [simp]: "has_row i (d\<lparr>next_task_id := n\<rparr>) = has_row i d"
  by (simp add: has_row_def)

lemma has_row_links [simp]: "has_row i (d\<lparr>links := l\<rparr>) = has_row i d"
  by (simp add: has_row_def)

lemma Model_save_task_safe:
  assumes "commit_safe s"
  shows "safe_step s (snd (Model_save_task self update_fields s)) \<and>
         (\<forall>t'. fst (Model_save_task self update_fields s) = Returns t' \<and> update_fields \<noteq> Some [] \<longrightarrow>
            (\<exists>i. pk t' = Some i \<and> has_row i (working (snd (Model_save_task self update_fields s)))))"
proof -
  have w: "\<And>f. (\<And>d i. has_row i d \<Longrightarrow> has_row i (f d)) \<Longrightarrow> safe_step s (db_write f s)"
    using assms by (rule db_write_safe)
  have u: "\<And>i g. (\<And>r. pk r = Some i \<Longrightarrow> pk (g r) = Some i) \<Longrightarrow>
      safe_step s (db_write (update_row i g) s)"
    by (rule w) (simp add: has_row_update_row)
  have c: "\<And>fs a r. pk (copy_fields fs a r) = pk r"
    by (simp add: copy_fields_def)
  show ?thesis
    by (auto simp add: Model_save_task_def Let_def safe_step_refl [OF assms] has_row_update_row c
        has_row_insert_row has_row_insert_row_new
        intro!: w u has_row_insert_row
        split: option.splits)
qed


lemma Task_save_safe:
  assumes "commit_safe s"
  shows "safe_step s (snd (Task_save self update_fields s)) \<and>
         (\<forall>t'. fst (Task_save self update_fields s) = Returns t' \<and> update_fields \<noteq> Some [] \<longrightarrow>
            (\<exists>i. pk t' = Some i \<and> has_row i (working (snd (Task_save self update_fields s)))))"
proof (cases "truthy (pk self)")
  case False
  then show ?thesis
    using Model_save_task_safe [OF assms, of self update_fields]
    by (simp add: Task_save_def)
next
  case True
  show ?thesis
  proof (cases update_fields)
    case None
    then show ?thesis using True by (simp add: Task_save_def safe_step_refl [OF assms])
  next
    case (Some fs)
    then show ?thesis
      using True Model_save_task_safe [OF assms, of self "Some (fs @ [''modified''])"]
      by (simp add: Task_save_def)
  qed
qed

lemma apply_async_safe:
  assumes "commit_safe s" and "depth s = 0" and "pk t = Some i" and "has_row i (working s)"
  shows "safe_step s (snd (apply_async t countdown eta s))"
  using assms by (auto simp add: apply_async_def safe_step_def commit_safe_def)

lemma keep_hook_safe:
  assumes "commit_safe s" and "hook_ready (working s) h"
  shows "safe_step s (s\<lparr>hooks := hooks s @ [h]\<rparr>)"
  using assms by (auto simp add: safe_step_def commit_safe_def)

lemma Task_enqueue_safe:
  assumes "commit_safe s"
  shows "safe_step s (snd (Task_enqueue t countdown eta s))"
proof -
  let ?t = "t\<lparr>status := SCHEDULED, completed := None, exception := [], stacktrace := []\<rparr>"
  let ?fs = "Some [''status'', ''completed'', ''exception'', ''stacktrace'']"
  obtain r s1 where sv: "Task_save ?t ?fs s = (r, s1)"
    by (cases "Task_save ?t ?fs s")
  have s1: "safe_step s s1"
    and row: "\<And>t'. r = Returns t' \<Longrightarrow> \<exists>i. pk t' = Some i \<and> has_row i (working s1)"
    using Task_save_safe [OF assms, of ?t ?fs] sv by simp_all
  have c1: "commit_safe s1" using s1 by (simp add: safe_step_def)
  show ?thesis
  proof (cases r)
    case (Raises e)
    then show ?thesis using sv s1 by (simp add: Task_enqueue_def)
  next
    case (Returns t')
    obtain i where i: "pk t' = Some i" "has_row i (working s1)"
      using row [OF Returns] by auto
    have "safe_step s1 (snd (on_commit (ApplyAsyncHook t' countdown eta)
            (apply_async t' countdown eta) s1))"
    proof (cases "0 < depth s1")
      case True
      have "hook_ready (working s1) (ApplyAsyncHook t' countdown eta)"
        using i by (simp add: hook_ready_def)
      from keep_hook_safe [OF c1 this] True show ?thesis by (simp add: on_commit_def)
    next
      case False
      then have "depth s1 = 0" by simp
      from apply_async_safe [OF c1 this i] False show ?thesis by (simp add: on_commit_def)
    qed
    from safe_step_trans [OF s1 this] show ?thesis
      using sv Returns
      by (auto simp add: Task_enqueue_def split: prod.splits outcome.splits)
  qed
qed

lemma run_hook_safe:
  assumes "commit_safe s" and "depth s = 0" and "hook_ready (working s) h"
  shows "safe_step s (snd (run_hook h s))"
proof (cases h)
  case (EnqueueHook t)
  then show ?thesis
    using Task_enqueue_safe [OF assms(1), of t None None]
    by (auto split: prod.splits outcome.splits)
next
  case (ApplyAsyncHook t countdown eta)
  then obtain i where "pk t = Some i" "has_row i (working s)"
    using assms(3) by (auto simp add: hook_ready_def)
  from apply_async_safe [OF assms(1,2) this] ApplyAsyncHook show ?thesis by simp
qed

lemma run_hooks_safe:
  assumes "commit_safe s" and "depth s = 0" and "\<forall>h \<in> set hs. hook_ready (working s) h"
  shows "safe_step s (snd (run_hooks hs s))"
  using assms
proof (induction hs arbitrary: s)
  case Nil
  then show ?case by (simp add: safe_step_refl)
next
  case (Cons h hs)
  obtain r s1 where rh: "run_hook h s = (r, s1)" by (cases "run_hook h s")
  have s1: "safe_step s s1"
    using run_hook_safe [OF Cons.prems(1,2), of h] Cons.prems(3) rh by simp
  show ?case
  proof (cases r)
    case (Raises e)
    then show ?thesis using rh s1 by simp
  next
    case (Returns u)
    have c1: "commit_safe s1" "depth s1 = 0"
      using s1 Cons.prems(2) by (simp_all add: safe_step_def)
    have ready: "\<forall>h \<in> set hs. hook_ready (working s1) h"
      using Cons.prems(3) s1 by (auto simp add: safe_step_def intro: hook_ready_mono)
    from safe_step_trans [OF s1 Cons.IH [OF c1 ready]] show ?thesis
      using rh Returns by simp
  qed
qed

lemma atomic_safe:
  assumes body: "\<And>s0. commit_safe s0 \<Longrightarrow> 0 < depth s0 \<Longrightarrow> safe_step s0 (snd (body s0))"
    and safe: "commit_safe s"
  shows "safe_step s (snd (atomic body s))"
proof -
  let ?s0 = "s\<lparr>depth := Suc (depth s)\<rparr>"
  have c0: "commit_safe ?s0" using safe by (simp add: commit_safe_def)
  obtain r s1 where b: "body ?s0 = (r, s1)" by (cases "body ?s0")
  have s1: "safe_step ?s0 s1" using body [OF c0] b by simp
  then have f1: "commit_safe s1" "depth s1 = Suc (depth s)" "committed s1 = committed s"
    "queue s1 = queue s" "\<And>i. has_row i (working s) \<Longrightarrow> has_row i (working s1)"
    by (simp_all add: safe_step_def)
  show ?thesis
  proof (cases r)
    case (Raises e)
    have "safe_step s (s1\<lparr>working := working s, hooks := hooks s, depth := depth s\<rparr>)"
      using safe f1 by (simp add: safe_step_def commit_safe_def)
    then show ?thesis using b Raises by (simp add: atomic_def)
  next
    case (Returns x)
    show ?thesis
    proof (cases "depth s = 0")
      case False
      have "safe_step s (s1\<lparr>depth := depth s\<rparr>)"
        using f1 False by (simp add: safe_step_def commit_safe_def)
      then show ?thesis using b Returns False by (simp add: atomic_def)
    next
      case True
      let ?s2 = "s1\<lparr>depth := 0, committed := working s1, hooks := []\<rparr>"
      have c2: "commit_safe ?s2"
        using f1 safe by (auto simp add: commit_safe_def)
      have ready: "\<forall>h \<in> set (hooks s1). hook_ready (working ?s2) h"
        using f1(1) by (simp add: commit_safe_def)
      have s2: "safe_step s ?s2"
        using c2 True f1(5) by (simp add: safe_step_def)
      have "safe_step ?s2 (snd (run_hooks (hooks s1) ?s2))"
        by (rule run_hooks_safe [OF c2 _ ready]) simp
      from safe_step_trans [OF s2 this] show ?thesis
        using b Returns True by (auto simp add: atomic_def split: prod.splits outcome.splits)
    qed
  qed
qed


lemma parent_task_set_add_safe:
  assumes "commit_safe s"
  shows "safe_step s (snd (parent_task_set_add child parent s))"
proof -
  have "safe_step s (db_write (\<lambda>d. d\<lparr>links := insert (c, p) (links d)\<rparr>) s)" for c p
    by (rule db_write_safe [OF assms]) simp
  then show ?thesis
    by (simp add: parent_task_set_add_def safe_step_refl [OF assms] split: option.splits)
qed

lemma default_create_safe:
  assumes "commit_safe s"
  shows "safe_step s (snd (default_create self n s))"
  using Task_save_safe [OF assms]
  by (simp add: default_create_def task_set_create_def safe_step_refl [OF assms]
      split: option.splits)

lemma create_for_safe:
  assumes creators: "creators_safe create_task"
    and safe: "commit_safe s" and inside: "0 < depth s"
  shows "safe_step s (snd (create_for create_task self n s))"
proof (cases "create_task n")
  case None
  then show ?thesis using default_create_safe [OF safe] by (simp add: create_for_def)
next
  case (Some f)
  obtain r s1 where f: "f (process_id self) s = (r, s1)" by (cases "f (process_id self) s")
  have "safe_step s (snd (f (process_id self) s))"
    using creators Some safe inside unfolding creators_safe_def by blast
  then have s1: "safe_step s s1" by (simp add: f)
  then have c1: "commit_safe s1" by (simp add: safe_step_def)
  have d: "safe_step s (snd (default_create self n s1))"
    by (rule safe_step_trans [OF s1 default_create_safe [OF c1]])
  show ?thesis
    using Some f s1 d by (cases r) (simp_all add: create_for_def)
qed

lemma loop_safe:
  assumes creators: "creators_safe create_task"
    and safe: "commit_safe s" and inside: "0 < depth s"
  shows "safe_step s (snd (start_next_tasks_loop create_task self ns acc s))"
  using safe inside
proof (induction ns arbitrary: s acc)
  case Nil
  then show ?case by (simp add: safe_step_refl)
next
  case (Cons x ns)
  show ?case
  proof (cases x)
    case (Raises e)
    then show ?thesis using Cons.prems by (simp add: safe_step_refl)
  next
    case (Returns n)
    obtain r1 s1 where c: "create_for create_task self n s = (r1, s1)"
      by (cases "create_for create_task self n s")
    have s1: "safe_step s s1"
      using create_for_safe [OF creators Cons.prems, of self n] c by simp
    show ?thesis
    proof (cases r1)
      case (Raises e)
      then show ?thesis using Returns c s1 by simp
    next
      case r1: (Returns t)
      have c1: "commit_safe s1" "0 < depth s1"
        using s1 Cons.prems(2) by (simp_all add: safe_step_def)
      obtain r2 s2 where a: "parent_task_set_add t self s1 = (r2, s2)"
        by (cases "parent_task_set_add t self s1")
      have s2: "safe_step s s2"
        using safe_step_trans [OF s1 parent_task_set_add_safe [OF c1(1), of t self]] a by simp
      show ?thesis
      proof (cases r2)
        case (Raises e)
        then show ?thesis using Returns c r1 a s2 by simp
      next
        case r2: (Returns u)
        have c2: "commit_safe s2" "0 < depth s2"
          using s2 Cons.prems(2) by (simp_all add: safe_step_def)
        let ?s3 = "if is_callable n then s2\<lparr>hooks := hooks s2 @ [EnqueueHook t]\<rparr> else s2"
        have k: "safe_step s2 ?s3"
          using keep_hook_safe [OF c2(1), of "EnqueueHook t"] safe_step_refl [OF c2(1)]
          by (simp add: hook_ready_def)
        have s3: "safe_step s ?s3" by (rule safe_step_trans [OF s2 k])
        have c3: "commit_safe ?s3" "0 < depth ?s3"
          using s3 Cons.prems(2) by (simp_all add: safe_step_def)
        have rest: "safe_step s (snd (start_next_tasks_loop create_task self ns (acc @ [t]) ?s3))"
          by (rule safe_step_trans [OF s3 Cons.IH [OF c3]])
        show ?thesis
          using Returns c r1 a r2 c2(2) rest by (auto simp add: on_commit_def)
      qed
    qed
  qed
qed

subsection \<open>The tasks that follow a task\<close>

text \<open>
  Claim C1, as the code has it, for a stored task of a process whose node is an attribute
  of the class, and for successors that have no \<open>create_task\<close> of their own, so that
  \<open>start_next_tasks\<close> creates their task.
  The successors are the end nodes of the edges whose start node has the name of the
  node of the task, in the order of \<open>edges\<close>. The call returns; the table gains one new
  row per successor, in that order, with the name and type of the successor and a key no
  row had; every new row gets the link (new row, calling task) and no other link is
  added. The tasks of the callable successors and no others are handed to
  \<open>transaction.on_commit\<close>, whatever the type of the node: inside an outer transaction
  they are kept, nothing is committed and the queue is as before; when the block is the
  outermost one, it commits and exactly these tasks arrive on the queue.
\<close>

theorem start_next_tasks_successors:
  assumes "pk self = Some p" and "process_id self = Some pid"
    and "Task_node cls self = Returns n"
    and "\<forall>m \<in> set (get_next_nodes cls n). create_task m = None"
    and "well_formed (working s)" and "depth s = 0 \<longrightarrow> hooks s = []"
  shows
    "let succ = map snd (filter (\<lambda>(start, end). node_name start = node_name n) (edges cls));
         k = next_task_id (working s);
         new = new_tasks k pid (clock s) succ;
         called = enqueued succ new;
         s' = snd (Task_start_next_tasks create_task cls self None s)
     in fst (Task_start_next_tasks create_task cls self None s) = Returns new \<and>
        length new = length succ \<and>
        map task_node_name new = map node_name succ \<and>
        map task_node_type new = map node_type succ \<and>
        map pk new = map Some [k ..< k + length succ] \<and>
        (\<forall>r \<in> set (tasks (working s)). pk r \<notin> set (map pk new)) \<and>
        tasks (working s') = tasks (working s) @ new \<and>
        links (working s') = links (working s) \<union> (\<lambda>i. (i, p)) ` {k ..< k + length succ} \<and>
        (0 < depth s \<longrightarrow>
           hooks s' = hooks s @ map EnqueueHook called \<and> queue s' = queue s \<and>
           committed s' = committed s) \<and>
        (depth s = 0 \<longrightarrow>
           hooks s' = [] \<and> committed s' = working s' \<and>
           queue s' = queue s @ map (\<lambda>t. \<lparr>sub_pk = pk t, sub_process_id = process_id t,
                                          sub_countdown = None, sub_eta = None\<rparr>) called)"
proof -
  let ?succ = "get_next_nodes cls n"
  have body: "start_next_tasks_body create_task cls self None =
      start_next_tasks_loop create_task self (map Returns ?succ) []"
    by (rule ext) (simp add: start_next_tasks_body_def assms(3))
  have idle: "depth s = 0 \<longrightarrow> hooks s = [] \<and> well_formed (working s)"
    using assms(5,6) by simp
  have run: "Task_start_next_tasks create_task cls self None s =
      atomic (start_next_tasks_loop create_task self (map Returns ?succ) []) s"
    by (simp add: Task_start_next_tasks_def body)
  have fresh: "\<forall>r \<in> set (tasks (working s)).
      pk r \<notin> set (map pk (new_tasks (next_task_id (working s)) pid (clock s) ?succ))"
    using new_keys_fresh [OF assms(5)] by blast
  show ?thesis
    unfolding run start_next_tasks_nodes [OF assms(1,2,4) idle]
    using fresh assms(6)
    by (simp add: Let_def get_next_nodes_def new_tasks_length new_tasks_names new_tasks_types
        new_tasks_keys del: set_map)
qed

text \<open>
  The finished start task of the order process, outside any transaction: a review task
  (key 3) and a ship task (key 4) are made, and the ship task is on the queue.
\<close>

theorem start_next_tasks_successors_witness:
  "pk ex_t1 = Some 1 \<and> process_id ex_t1 = Some 1 \<and> Task_node ex_cls ex_t1 = Returns ex_start \<and>
   get_next_nodes ex_cls ex_start = [ex_review, ex_ship] \<and>
   well_formed (working ex_state) \<and> depth ex_state = 0 \<and> hooks ex_state = [] \<and>
   fst (Task_start_next_tasks (\<lambda>m. None) ex_cls ex_t1 None ex_state) =
     Returns [created_task 3 1 ''review'' ''human'' 5, created_task 4 1 ''ship'' ''machine'' 5] \<and>
   tasks (working (snd (Task_start_next_tasks (\<lambda>m. None) ex_cls ex_t1 None ex_state))) =
     [ex_t1, ex_t2, created_task 3 1 ''review'' ''human'' 5, created_task 4 1 ''ship'' ''machine'' 5] \<and>
   links (working (snd (Task_start_next_tasks (\<lambda>m. None) ex_cls ex_t1 None ex_state))) =
     {(2, 1), (3, 1), (4, 1)} \<and>
   queue (snd (Task_start_next_tasks (\<lambda>m. None) ex_cls ex_t1 None ex_state)) =
     [\<lparr>sub_pk = Some 4, sub_process_id = Some 1, sub_countdown = None, sub_eta = None\<rparr>]"
proof -
  have n: "Task_node ex_cls ex_t1 = Returns ex_start"
    by (simp add: Task_node_def edge_nodes_def ex_defs)
  have g: "get_next_nodes ex_cls ex_start = [ex_review, ex_ship]"
    by (simp add: get_next_nodes_def ex_defs)
  have w: "well_formed (working ex_state)"
    by (simp add: well_formed_def has_row_def ex_defs)
  have c: "\<forall>m \<in> set (get_next_nodes ex_cls ex_start). (\<lambda>m. None) m = None"
    by simp
  have u: "{3 ..< 5} = {3, 4 :: nat}" by auto
  show ?thesis
    using start_next_tasks_successors [of ex_t1 1 1 ex_cls ex_start "\<lambda>m. None" ex_state, OF _ _ n c w]
      n g w
    apply (simp add: Let_def g [unfolded get_next_nodes_def])
    apply (simp add: ex_defs enqueued_def created_task_def node_type_def HUMAN_def MACHINE_def u)
    apply auto
    done
qed

text \<open>
  Claim C1 as it is worded fails twice. In the order process with a way back the review
  node has a \<open>create_task\<close> that hands back the task of the node: the ship task 3 has one
  successor, and the call adds no row, it returns the stored review task 2. In the
  contract process no node has a \<open>create_task\<close>: \<open>wait\<close> has the machine type and is not
  callable, \<open>sign\<close> has the human type and is callable, and of their two new tasks it is
  the human one, key 4, that arrives on the queue, and the machine one does not.
\<close>

theorem start_next_tasks_counterexample:
  "Task_node ex_loop_cls ex_t3 = Returns ex_ship \<and>
   get_next_nodes ex_loop_cls ex_ship = [ex_review] \<and>
   fst (Task_start_next_tasks ex_create_task ex_loop_cls ex_t3 None ex_loop_state) =
     Returns [ex_t2_done] \<and>
   tasks (working (snd (Task_start_next_tasks ex_create_task ex_loop_cls ex_t3 None
     ex_loop_state))) = tasks (working ex_loop_state) \<and>
   Task_node ex_contract_cls ex_t1 = Returns ex_start \<and>
   get_next_nodes ex_contract_cls ex_start = [ex_wait, ex_sign] \<and>
   node_type ex_wait = MACHINE \<and> node_type ex_sign = HUMAN \<and>
   fst (Task_start_next_tasks (\<lambda>m. None) ex_contract_cls ex_t1 None ex_state) =
     Returns [created_task 3 1 ''wait'' MACHINE 5, created_task 4 1 ''sign'' HUMAN 5] \<and>
   hooks (snd (Task_start_next_tasks (\<lambda>m. None) ex_contract_cls ex_t1 None ex_state)) = [] \<and>
   queue (snd (Task_start_next_tasks (\<lambda>m. None) ex_contract_cls ex_t1 None ex_state)) =
     [\<lparr>sub_pk = Some 4, sub_process_id = Some 1, sub_countdown = None, sub_eta = None\<rparr>]"
  by code_simp

subsection \<open>The override\<close>

text \<open>
  Claim C2, as the code has it, for a stored process in a database that keeps its
  integrity, for node names that \<open>get_node\<close> resolves (the form offers the names of the
  nodes), and for chosen nodes that have no \<open>create_task\<close> of their own. The call returns
  the tasks it started. Every task row of the process without completion time, and no
  other row, becomes what \<open>finish()\<close> leaves: succeeded and completed now. One row is
  added for the task \<open>manual_override\<close>, itself finished; its parents are exactly the keys
  of the rows that were finished for it. After it one new row per chosen name is added,
  in the order of the names, for the node of that name, each with the override task as
  its parent; no other row and no other link is added. The tasks of callable chosen nodes
  are kept for the commit inside an outer transaction and arrive on the queue when
  \<open>form_valid\<close> is the outermost block.
\<close>

theorem override_form_valid:
  assumes "well_formed (working s)" and "depth s = 0 \<longrightarrow> hooks s = []"
    and "p_pk object = Some pid" and "pid \<noteq> 0" and "has_process pid (working s)"
    and "iterates iter (node_set cls)"
    and "get_next_task_nodes iter cls node_names = map Returns nodes"
    and "\<forall>n \<in> set nodes. create_task n = None"
  shows
    "let now = clock s;
         k = next_task_id (working s);
         active = (\<lambda>t. process_id t = Some pid \<and> completed t = None);
         override_task = finished now (created_task k pid ''manual_override'' [] now);
         new = new_tasks (Suc k) pid now nodes;
         called = enqueued nodes new;
         s' = snd (form_valid create_task iter cls object node_names s)
     in fst (form_valid create_task iter cls object node_names s) = Returns new \<and>
        map node_name nodes = node_names \<and> set nodes \<subseteq> node_set cls \<and>
        map task_node_name new = node_names \<and>
        map pk new = map Some [Suc k ..< Suc k + length node_names] \<and>
        tasks (working s') =
          map (\<lambda>r. if active r then finished now r else r) (tasks (working s)) @
            override_task # new \<and>
        (\<forall>r \<in> set (tasks (working s)). pk r \<noteq> Some k \<and> pk r \<notin> set (map pk new)) \<and>
        {p. (k, p) \<in> links (working s')} =
          {i. \<exists>t \<in> set (tasks (working s)). active t \<and> pk t = Some i} \<and>
        links (working s') =
          links (working s) \<union>
          (\<lambda>i. (k, i)) ` {i. \<exists>t \<in> set (tasks (working s)). active t \<and> pk t = Some i} \<union>
          (\<lambda>i. (i, k)) ` {Suc k ..< Suc k + length node_names} \<and>
        (0 < depth s \<longrightarrow>
           hooks s' = hooks s @ map EnqueueHook called \<and> queue s' = queue s \<and>
           committed s' = committed s) \<and>
        (depth s = 0 \<longrightarrow>
           hooks s' = [] \<and> committed s' = working s' \<and>
           queue s' = queue s @ map (\<lambda>t. \<lparr>sub_pk = pk t, sub_process_id = process_id t,
                                          sub_countdown = None, sub_eta = None\<rparr>) called)"
proof -
  let ?k = "next_task_id (working s)"
  let ?new = "new_tasks (Suc ?k) pid (clock s) nodes"
  have nodes: "map node_name nodes = node_names" "set nodes \<subseteq> node_set cls"
    using get_next_task_nodes_Returns [OF assms(7)] assms(6) by (simp_all add: iterates_def)
  have len: "length nodes = length node_names"
    using nodes(1) by (metis length_map)
  have old: "\<And>r. r \<in> set (tasks (working s)) \<Longrightarrow> \<exists>i. pk r = Some i \<and> i < ?k"
    using assms(1) by (auto simp add: well_formed_def)
  have fresh: "\<forall>r \<in> set (tasks (working s)). pk r \<noteq> Some ?k \<and> pk r \<notin> set (map pk ?new)"
    using old by (fastforce simp add: new_tasks_keys)
  have nochild: "\<And>p. (?k, p) \<notin> links (working s)"
    using assms(1) old by (fastforce simp add: well_formed_def has_row_def)
  have parents: "{p. (?k, p) \<in> links (working s) \<union>
          (\<lambda>i. (?k, i)) ` {i. \<exists>t \<in> set (tasks (working s)).
              (process_id t = Some pid \<and> completed t = None) \<and> pk t = Some i} \<union>
          (\<lambda>i. (i, ?k)) ` {Suc ?k ..< Suc ?k + length nodes}} =
        {i. \<exists>t \<in> set (tasks (working s)).
              (process_id t = Some pid \<and> completed t = None) \<and> pk t = Some i}"
    using nochild by auto
  let ?W = "(working s)\<lparr>
              tasks := map (\<lambda>r. if process_id r = Some pid \<and> completed r = None
                                 then finished (clock s) r else r) (tasks (working s)) @
                       finished (clock s) (created_task ?k pid ''manual_override'' [] (clock s)) # ?new,
              links := links (working s) \<union>
                       (\<lambda>i. (?k, i)) ` {i. \<exists>t \<in> set (tasks (working s)).
                           process_id t = Some pid \<and> completed t = None \<and> pk t = Some i} \<union>
                       (\<lambda>i. (i, ?k)) ` {Suc ?k ..< Suc ?k + length nodes},
              processes := map (\<lambda>r. if p_pk r = Some pid
                                     then object\<lparr>p_modified := Some (clock s)\<rparr> else r)
                             (processes (working s)),
              next_task_id := Suc ?k + length nodes\<rparr>"
  let ?S = "if 0 < depth s
         then s\<lparr>working := ?W, hooks := hooks s @ map EnqueueHook (enqueued nodes ?new)\<rparr>
         else s\<lparr>working := ?W, committed := ?W,
                queue := queue s @ map (\<lambda>t. \<lparr>sub_pk = pk t, sub_process_id = process_id t,
                            sub_countdown = None, sub_eta = None\<rparr>) (enqueued nodes ?new)\<rparr>"
  have E: "form_valid create_task iter cls object node_names s = (Returns ?new, ?S)"
    using form_valid_eq [OF assms(1-5) assms(7,8)] by (simp only: Let_def)
  have r: "fst (form_valid create_task iter cls object node_names s) = Returns ?new"
    and s': "snd (form_valid create_task iter cls object node_names s) = ?S"
    by (simp_all only: E fst_conv snd_conv)
  have w: "working ?S = ?W" by simp
  have T: "tasks (working ?S) =
          map (\<lambda>r. if process_id r = Some pid \<and> completed r = None then finished (clock s) r else r)
            (tasks (working s)) @
          finished (clock s) (created_task ?k pid ''manual_override'' [] (clock s)) # ?new"
    unfolding w by simp
  have L: "links (working ?S) = links (working s) \<union>
          (\<lambda>i. (?k, i)) ` {i. \<exists>t \<in> set (tasks (working s)).
              (process_id t = Some pid \<and> completed t = None) \<and> pk t = Some i} \<union>
          (\<lambda>i. (i, ?k)) ` {Suc ?k ..< Suc ?k + length nodes}"
    unfolding w by simp
  have H1: "0 < depth s \<longrightarrow>
           hooks ?S = hooks s @ map EnqueueHook (enqueued nodes ?new) \<and> queue ?S = queue s \<and>
           committed ?S = committed s"
    by simp
  have H0: "depth s = 0 \<longrightarrow>
           hooks ?S = [] \<and> committed ?S = working ?S \<and>
           queue ?S = queue s @ map (\<lambda>t. \<lparr>sub_pk = pk t, sub_process_id = process_id t,
                                          sub_countdown = None, sub_eta = None\<rparr>) (enqueued nodes ?new)"
    using assms(2) by simp
  have P: "{p. (?k, p) \<in> links (working ?S)} =
        {i. \<exists>t \<in> set (tasks (working s)).
              (process_id t = Some pid \<and> completed t = None) \<and> pk t = Some i}"
    unfolding L by (rule parents)
  have N: "map task_node_name ?new = node_names" "map pk ?new = map Some [Suc ?k ..< Suc ?k + length node_names]"
    using nodes(1) len by (simp_all add: new_tasks_names new_tasks_keys)
  show ?thesis
    unfolding Let_def r s'
    using nodes N T fresh P L H1 H0 len by (simp only: simp_thms)
qed

text \<open>
  The order process, overridden towards \<open>ship\<close> and \<open>review\<close>: the open review task 2 is
  finished, the override task gets key 3 and parent 2, the new tasks get keys 4 and 5, and
  the ship task is on the queue.
\<close>

theorem override_form_valid_witness:
  "well_formed (working ex_state) \<and> depth ex_state = 0 \<and> hooks ex_state = [] \<and>
   p_pk ex_process = Some 1 \<and> has_process 1 (working ex_state) \<and>
   iterates ex_iter (node_set ex_cls) \<and>
   get_next_task_nodes ex_iter ex_cls [''ship'', ''review''] = map Returns [ex_ship, ex_review] \<and>
   fst (form_valid (\<lambda>m. None) ex_iter ex_cls ex_process [''ship'', ''review''] ex_state) =
     Returns [created_task 4 1 ''ship'' ''machine'' 5, created_task 5 1 ''review'' ''human'' 5] \<and>
   tasks (working (snd (form_valid (\<lambda>m. None) ex_iter ex_cls ex_process [''ship'', ''review'']
       ex_state))) =
     [ex_t1, finished 5 ex_t2, finished 5 (created_task 3 1 ''manual_override'' [] 5),
      created_task 4 1 ''ship'' ''machine'' 5, created_task 5 1 ''review'' ''human'' 5] \<and>
   links (working (snd (form_valid (\<lambda>m. None) ex_iter ex_cls ex_process [''ship'', ''review'']
       ex_state))) = {(2, 1), (3, 2), (4, 3), (5, 3)} \<and>
   queue (snd (form_valid (\<lambda>m. None) ex_iter ex_cls ex_process [''ship'', ''review''] ex_state)) =
     [\<lparr>sub_pk = Some 4, sub_process_id = Some 1, sub_countdown = None, sub_eta = None\<rparr>]"
proof -
  have w: "well_formed (working ex_state)"
    by (simp add: well_formed_def has_row_def ex_defs)
  have i: "depth ex_state = 0 \<longrightarrow> hooks ex_state = []"
    by (simp add: ex_defs)
  have p: "p_pk ex_process = Some 1" "(1::nat) \<noteq> 0" "has_process 1 (working ex_state)"
    by (simp_all add: has_process_def ex_defs)
  have it: "iterates ex_iter (node_set ex_cls)"
    by (auto simp add: iterates_def node_set_def ex_defs)
  have g: "get_next_task_nodes ex_iter ex_cls [''ship'', ''review''] = map Returns [ex_ship, ex_review]"
    by (simp add: get_next_task_nodes_def get_node_def get_nodes_def ex_defs)
  have c: "\<forall>n \<in> set [ex_ship, ex_review]. (\<lambda>m. None) n = None"
    by simp
  have u: "{4 ..< 6} = {4, 5 :: nat}" by auto
  have a: "{i. \<exists>t \<in> set (tasks (working ex_state)).
             (process_id t = Some 1 \<and> completed t = None) \<and> pk t = Some i} = {2}"
    by (auto simp add: ex_defs)
  have d: "depth ex_state = 0" "hooks ex_state = []" "clock ex_state = 5"
     "next_task_id (working ex_state) = 3" "tasks (working ex_state) = [ex_t1, ex_t2]"
     "links (working ex_state) = {(2, 1)}" "queue ex_state = []"
    by (simp_all add: ex_defs)
  have t: "process_id ex_t1 = Some 1" "completed ex_t1 = Some 1" "process_id ex_t2 = Some 1"
     "completed ex_t2 = None" "is_callable ex_ship" "\<not> is_callable ex_review"
     "node_name ex_ship = ''ship''" "node_name ex_review = ''review''"
     "node_type ex_ship = ''machine''" "node_type ex_review = ''human''"
     "pk ex_t1 = Some 1" "pk ex_t2 = Some 2"
    by (simp_all add: ex_defs node_type_def HUMAN_def MACHINE_def)
  have e: "enqueued [ex_ship, ex_review]
             [created_task 4 1 ''ship'' ''machine'' 5, created_task 5 1 ''review'' ''human'' 5] =
           [created_task 4 1 ''ship'' ''machine'' 5]"
    by (simp add: enqueued_def t)
  have k: "\<And>i pid name type now. pk (created_task i pid name type now) = Some i"
     "\<And>i pid name type now. process_id (created_task i pid name type now) = Some pid"
    by (simp_all add: created_task_def)
  have l: "insert (2, Suc 0) (insert (4, 3) (insert (5, 3) {(3, 2)})) =
           {(2, Suc 0), (3, 2), (4, 3), (5, 3 :: nat)}"
    by auto
  show ?thesis
    using override_form_valid [OF w i p it g c] w p(1,3) it g d(1,2)
    by (simp add: Let_def d a t u l k enqueued_def)
qed

text \<open>
  Claim C2 as it is worded fails where a chosen node has a \<open>create_task\<close> of its own. The
  order process is overridden towards \<open>review\<close>, whose \<open>create_task\<close> hands back the task
  of the node: the open review task 2 is finished, the override task 3 is made and
  finished, and then no task is started at \<open>review\<close>; the call returns the finished
  task 2, the table has three rows and none of them is open.
\<close>

theorem override_counterexample:
  "get_next_task_nodes ex_iter ex_cls [''review''] = [Returns ex_review] \<and>
   active_tasks 1 ex_state = [ex_t2] \<and>
   fst (form_valid ex_create_task ex_iter ex_cls ex_process [''review''] ex_state) =
     Returns [finished 5 ex_t2] \<and>
   tasks (working (snd (form_valid ex_create_task ex_iter ex_cls ex_process [''review'']
     ex_state))) =
     [ex_t1, finished 5 ex_t2, finished 5 (created_task 3 1 ''manual_override'' [] 5)] \<and>
   filter (\<lambda>t. completed t = None)
     (tasks (working (snd (form_valid ex_create_task ex_iter ex_cls ex_process [''review'']
        ex_state)))) = []"
  by code_simp

subsection \<open>Saving needs \<open>update_fields\<close>: tasks only\<close>

text \<open>
  Claim C3, as the code has it. \<open>Task.save\<close> on a task whose key is set (and true) and
  without \<open>update_fields\<close> raises \<open>ValueError\<close> and leaves the state as it was.
  \<open>Process.save\<close> makes no such demand: on a stored process without \<open>update_fields\<close> it
  raises nothing and writes every column of the row.
\<close>

theorem save_update_fields:
  "(truthy (pk t) \<longrightarrow> Task_save t None s = (Raises ValueError, s)) \<and>
   (p_pk p = Some i \<and> i \<noteq> 0 \<and> has_process i (working s) \<longrightarrow>
      Process_save p None s =
        (Returns (p\<lparr>p_modified := Some (clock s)\<rparr>),
         db_write (update_process i (\<lambda>r. p\<lparr>p_modified := Some (clock s)\<rparr>)) s))"
  by (simp add: Task_save_def Process_save_def Model_save_process_def truthy_def Let_def)

text \<open>Both halves on the order process.\<close>

theorem save_update_fields_witness:
  "truthy (pk ex_t2) \<and> Task_save ex_t2 None ex_state = (Raises ValueError, ex_state) \<and>
   p_pk ex_process = Some 1 \<and> has_process 1 (working ex_state) \<and>
   Process_save ex_process None ex_state =
     (Returns (ex_process\<lparr>p_modified := Some 5\<rparr>),
      db_write (update_process 1 (\<lambda>r. ex_process\<lparr>p_modified := Some 5\<rparr>)) ex_state)"
  using save_update_fields [of ex_t2 ex_state ex_process 1]
  by (simp add: ex_defs truthy_def has_process_def)

text \<open>
  Claim C3 as it is worded fails on \<open>Process\<close>: the stored process 1 is saved without
  \<open>update_fields\<close>, the call returns and the row is rewritten.
\<close>

theorem process_save_counterexample:
  "truthy (p_pk ex_process) \<and>
   fst (Process_save ex_process None ex_state) = Returns (ex_process\<lparr>p_modified := Some 5\<rparr>) \<and>
   processes (working ex_state) = [ex_process] \<and>
   processes (working (snd (Process_save ex_process None ex_state))) =
     [ex_process\<lparr>p_modified := Some 5\<rparr>]"
  by (simp add: Process_save_def Model_save_process_def truthy_def Let_def ex_defs
      has_process_def db_write_def update_process_def)

subsection \<open>The queue sees committed rows only\<close>

text \<open>
  Claim C4. In a state where every call on the queue names a committed row, \<open>enqueue\<close>
  of any task object and \<open>start_next_tasks\<close> of any task, for any nodes, whether they
  return or raise, leave a state where this is so again; and when they run inside a
  transaction the queue is exactly as before: the call for the worker is only kept, and
  it is made when the outermost block has committed. Node classes with a \<open>create_task\<close>
  of their own are taken to go through the same steps.
\<close>

theorem enqueue_after_commit:
  assumes "commit_safe s"
    and "creators_safe create_task"
  shows "commit_safe (snd (Task_enqueue t countdown eta s)) \<and>
         (\<forall>q \<in> set (queue (snd (Task_enqueue t countdown eta s))).
            \<exists>i. sub_pk q = Some i \<and> has_row i (committed (snd (Task_enqueue t countdown eta s)))) \<and>
         (0 < depth s \<longrightarrow> queue (snd (Task_enqueue t countdown eta s)) = queue s) \<and>
         commit_safe (snd (Task_start_next_tasks create_task cls self next_nodes s)) \<and>
         (\<forall>q \<in> set (queue (snd (Task_start_next_tasks create_task cls self next_nodes s))).
            \<exists>i. sub_pk q = Some i \<and>
              has_row i (committed (snd (Task_start_next_tasks create_task cls self next_nodes s)))) \<and>
         (0 < depth s \<longrightarrow>
            queue (snd (Task_start_next_tasks create_task cls self next_nodes s)) = queue s)"
proof -
  have e: "safe_step s (snd (Task_enqueue t countdown eta s))"
    by (rule Task_enqueue_safe [OF assms(1)])
  have body: "safe_step s0 (snd (start_next_tasks_body create_task cls self next_nodes s0))"
    if "commit_safe s0" and "0 < depth s0" for s0
    using loop_safe [OF assms(2) that] safe_step_refl [OF that(1)]
    by (simp add: start_next_tasks_body_def split: option.splits outcome.splits)
  have n: "safe_step s (snd (Task_start_next_tasks create_task cls self next_nodes s))"
    unfolding Task_start_next_tasks_def
    by (rule atomic_safe [OF body assms(1)])
  show ?thesis
    using e n by (simp add: safe_step_def commit_safe_def)
qed


text \<open>The order process, outside a transaction and inside one.\<close>

theorem enqueue_after_commit_witness:
  "commit_safe ex_state \<and> commit_safe (ex_state\<lparr>depth := 1\<rparr>) \<and> creators_safe (\<lambda>m. None) \<and>
   commit_safe (snd (Task_enqueue ex_t2 None None ex_state)) \<and>
   commit_safe (snd (Task_start_next_tasks (\<lambda>m. None) ex_cls ex_t1 None ex_state)) \<and>
   queue (snd (Task_enqueue ex_t2 None None (ex_state\<lparr>depth := 1\<rparr>))) = [] \<and>
   queue (snd (Task_start_next_tasks (\<lambda>m. None) ex_cls ex_t1 None (ex_state\<lparr>depth := 1\<rparr>))) = []"
proof -
  have a: "commit_safe ex_state"
    by (simp add: commit_safe_def ex_defs)
  have b: "commit_safe (ex_state\<lparr>depth := 1\<rparr>)"
    by (simp add: commit_safe_def ex_defs)
  have c: "creators_safe (\<lambda>m. None)"
    by (simp add: creators_safe_def)
  have q: "queue (ex_state\<lparr>depth := 1\<rparr>) = []" "0 < depth (ex_state\<lparr>depth := 1\<rparr>)"
    by (simp_all add: ex_defs)
  show ?thesis
    using enqueue_after_commit [OF a c, of ex_t2 None None ex_cls ex_t1 None]
      enqueue_after_commit [OF b c, of ex_t2 None None ex_cls ex_t1 None] a b c q
    by simp
qed

subsection \<open>A failure and its completion time\<close>

text \<open>
  Claim C5 at the waiting review task. \<open>fail\<close> sets status, exception (the last line of
  the traceback, stripped), stack trace and completion time on the object, and the first
  three reach the row. The completion time does not: \<open>completed\<close> is not among the
  \<open>update_fields\<close> of the save, and the row keeps \<open>None\<close>.
\<close>

theorem fail_leaves_completed_unsaved:
  "fst (Task_fail ex_t2 ex_tb ex_state) =
     Returns (ex_t2\<lparr>completed := Some 5, status := ''failed'', exception := ''ValueError: boom'',
        stacktrace := ''Traceback (most recent call last):\<newline>ValueError: boom\<newline>'',
        modified := Some 5\<rparr>) \<and>
   tasks (working (snd (Task_fail ex_t2 ex_tb ex_state))) =
     [ex_t1, ex_t2\<lparr>status := ''failed'', exception := ''ValueError: boom'',
        stacktrace := ''Traceback (most recent call last):\<newline>ValueError: boom\<newline>'',
        modified := Some 5\<rparr>] \<and>
   map completed (tasks (working (snd (Task_fail ex_t2 ex_tb ex_state)))) = [Some 1, None] \<and>
   map completed (tasks (committed (snd (Task_fail ex_t2 ex_tb ex_state)))) = [Some 1, None]"
  by (simp add: Task_fail_def Task_save_def Model_save_task_def truthy_def Let_def ex_defs ex_tb_def
      has_row_def db_write_def update_row_def task_field_names_def copy_fields_def FAILED_def
      strip_def is_space_def)

subsection \<open>The routes of a process class\<close>

lemma node_urls_concat:
  "concat (map node_urls (map (\<lambda>n. (node_name n, n)) xs)) =
     map (\<lambda>n. \<lparr>route = node_name n @ (if is_create_view n then ''/'' else ''/<pk>/''),
               url_view = TaskView (node_name n) n, url_name = node_name n\<rparr>)
       (filter is_task_view xs)"
  by (induction xs) (simp_all add: node_urls_def)

text \<open>
  Claim C6, as the code has it. Whatever the order in which the node set is iterated, the
  list of routes is the routes of the human nodes, one each and no other, followed by the
  detail view at \<open><pk>/\<close> and the override view at \<open><pk>/override\<close>. A human node that is a
  create view is routed at \<open><node>/\<close>, every other human node at \<open><node>/<pk>/\<close>.
\<close>

theorem urls_routes:
  assumes "iterates iter (node_set cls)"
  shows "\<exists>rs. fst (urls iter cls) =
            rs @ [\<lparr>route = ''<pk>/'', url_view = ProcessDetailView, url_name = ''detail''\<rparr>,
                  \<lparr>route = ''<pk>/override'', url_view = ManualOverrideView,
                   url_name = ''override''\<rparr>] \<and>
          set rs =
            (\<lambda>n. \<lparr>route = node_name n @ (if is_create_view n then ''/'' else ''/<pk>/''),
                   url_view = TaskView (node_name n) n, url_name = node_name n\<rparr>) `
              {n \<in> node_set cls. is_task_view n} \<and>
          length rs = card {n \<in> node_set cls. is_task_view n} \<and>
          snd (urls iter cls) = get_url_namespace cls"
proof -
  let ?xs = "iter (node_set cls)"
  have s: "set ?xs = node_set cls" and d: "distinct ?xs"
    using assms by (simp_all add: iterates_def)
  have e: "set (filter is_task_view ?xs) = {n \<in> node_set cls. is_task_view n}"
    using s by auto
  have c: "length (filter is_task_view ?xs) = card {n \<in> node_set cls. is_task_view n}"
  proof -
    have "length (filter is_task_view ?xs) = card (set (filter is_task_view ?xs))"
      using distinct_card [OF distinct_filter [OF d, of is_task_view]]
      by (simp del: set_filter)
    then show ?thesis by (simp only: e)
  qed
  show ?thesis
    unfolding urls_def get_nodes_def node_urls_concat
    apply (rule exI [where x = "map (\<lambda>n. \<lparr>route = node_name n @
               (if is_create_view n then ''/'' else ''/<pk>/''),
               url_view = TaskView (node_name n) n, url_name = node_name n\<rparr>)
             (filter is_task_view ?xs)"])
    using c e by (simp del: set_filter)
qed

text \<open>The order process, iterated as ship, start, review.\<close>

theorem urls_routes_witness:
  "iterates ex_iter (node_set ex_cls) \<and>
   (\<exists>rs. fst (urls ex_iter ex_cls) =
            rs @ [\<lparr>route = ''<pk>/'', url_view = ProcessDetailView, url_name = ''detail''\<rparr>,
                  \<lparr>route = ''<pk>/override'', url_view = ManualOverrideView,
                   url_name = ''override''\<rparr>] \<and>
          set rs =
            (\<lambda>n. \<lparr>route = node_name n @ (if is_create_view n then ''/'' else ''/<pk>/''),
                   url_view = TaskView (node_name n) n, url_name = node_name n\<rparr>) `
              {n \<in> node_set ex_cls. is_task_view n} \<and>
          length rs = card {n \<in> node_set ex_cls. is_task_view n} \<and>
          snd (urls ex_iter ex_cls) = get_url_namespace ex_cls)"
proof -
  have h: "iterates ex_iter (node_set ex_cls)"
    by (auto simp add: iterates_def node_set_def ex_defs)
  show ?thesis using h urls_routes [OF h] by simp
qed

text \<open>
  Claim C6 as it is worded fails on a create view: \<open>start\<close> is a human node of the order
  process, its route is \<open>start/\<close>, and no route of the class is \<open>start/<pk>/\<close>.
\<close>

theorem urls_create_view_counterexample:
  "ex_start \<in> node_set ex_cls \<and> is_task_view ex_start \<and>
   map route (fst (urls ex_iter ex_cls)) =
     [''start/'', ''review/<pk>/'', ''<pk>/'', ''<pk>/override''] \<and>
   ''start/<pk>/'' \<notin> set (map route (fst (urls ex_iter ex_cls)))"
  by (simp add: urls_def get_nodes_def node_urls_def node_set_def ex_defs)

subsection \<open>The history of a process is a growing graph without cycles\<close>

text \<open>
  Claim C7, as the code has it, for a database that keeps its integrity and whose parent
  links have no cycle, and for nodes that have no \<open>create_task\<close> of their own.
  \<open>start_next_tasks\<close> on a stored task (with the nodes given or with the successors) and
  the override view both keep every link there was; every link they add goes from a row
  that did not exist before the call to a parent with a smaller key, that is, a row
  created before the child; the links still have no cycle, and the database still keeps
  its integrity, so the same holds for the next call. A call that raises inside a
  transaction leaves the tables as they were.
\<close>

theorem parent_links_append_only:
  assumes "well_formed (working s)" and "acyclic (links (working s))"
    and "depth s = 0 \<longrightarrow> hooks s = []"
  shows
    "(pk self = Some p \<and> has_row p (working s) \<and> process_id self = Some pid \<and>
      (\<forall>n \<in> set ns. create_task n = None) \<and>
      (next_nodes = Some (map Returns ns) \<or>
       next_nodes = None \<and> Task_node cls self = Returns n \<and> ns = get_next_nodes cls n) \<longrightarrow>
        (let d' = working (snd (Task_start_next_tasks create_task cls self next_nodes s))
         in appends_links (working s) d' \<and> acyclic (links d') \<and> well_formed d')) \<and>
     (p_pk object = Some pid \<and> pid \<noteq> 0 \<and> has_process pid (working s) \<and>
      get_next_task_nodes iter cls node_names = map Returns nodes \<and>
      (\<forall>n \<in> set nodes. create_task n = None) \<longrightarrow>
        (let d' = working (snd (form_valid create_task iter cls object node_names s))
         in appends_links (working s) d' \<and> acyclic (links d') \<and> well_formed d')) \<and>
     (0 < depth s \<and> fst (Task_start_next_tasks create_task cls self next_nodes s) = Raises e \<longrightarrow>
        working (snd (Task_start_next_tasks create_task cls self next_nodes s)) = working s) \<and>
     (0 < depth s \<and> fst (form_valid create_task iter cls object node_names s) = Raises e \<longrightarrow>
        working (snd (form_valid create_task iter cls object node_names s)) = working s)"
proof -
  have body: "next_nodes = Some (map Returns ns) \<or>
       next_nodes = None \<and> Task_node cls self = Returns n \<and> ns = get_next_nodes cls n \<Longrightarrow>
     Task_start_next_tasks create_task cls self next_nodes s =
       atomic (start_next_tasks_loop create_task self (map Returns ns) []) s"
  proof -
    assume "next_nodes = Some (map Returns ns) \<or>
       next_nodes = None \<and> Task_node cls self = Returns n \<and> ns = get_next_nodes cls n"
    then have "start_next_tasks_body create_task cls self next_nodes =
        start_next_tasks_loop create_task self (map Returns ns) []"
      by (auto simp add: start_next_tasks_body_def fun_eq_iff)
    then show ?thesis by (simp add: Task_start_next_tasks_def)
  qed
  have one: "pk self = Some p \<and> has_row p (working s) \<and> process_id self = Some pid \<and>
      (\<forall>n \<in> set ns. create_task n = None) \<and>
      (next_nodes = Some (map Returns ns) \<or>
       next_nodes = None \<and> Task_node cls self = Returns n \<and> ns = get_next_nodes cls n) \<longrightarrow>
        (let d' = working (snd (Task_start_next_tasks create_task cls self next_nodes s))
         in appends_links (working s) d' \<and> acyclic (links d') \<and> well_formed d')"
  proof (intro impI, elim conjE)
    assume h: "pk self = Some p" "has_row p (working s)" "process_id self = Some pid"
      "\<forall>n \<in> set ns. create_task n = None"
      "next_nodes = Some (map Returns ns) \<or>
       next_nodes = None \<and> Task_node cls self = Returns n \<and> ns = get_next_nodes cls n"
    show "let d' = working (snd (Task_start_next_tasks create_task cls self next_nodes s))
         in appends_links (working s) d' \<and> acyclic (links d') \<and> well_formed d'"
      unfolding Let_def body [OF h(5)]
      by (rule start_next_tasks_links [OF assms h(1-4)])
  qed
  have two: "p_pk object = Some pid \<and> pid \<noteq> 0 \<and> has_process pid (working s) \<and>
      get_next_task_nodes iter cls node_names = map Returns nodes \<and>
      (\<forall>n \<in> set nodes. create_task n = None) \<longrightarrow>
        (let d' = working (snd (form_valid create_task iter cls object node_names s))
         in appends_links (working s) d' \<and> acyclic (links d') \<and> well_formed d')"
  proof (intro impI, elim conjE)
    assume h: "p_pk object = Some pid" "pid \<noteq> 0" "has_process pid (working s)"
      "get_next_task_nodes iter cls node_names = map Returns nodes"
      "\<forall>n \<in> set nodes. create_task n = None"
    show "let d' = working (snd (form_valid create_task iter cls object node_names s))
         in appends_links (working s) d' \<and> acyclic (links d') \<and> well_formed d'"
      unfolding Let_def
      by (rule form_valid_links [OF assms h])
  qed
  have three: "0 < depth s \<and>
      fst (Task_start_next_tasks create_task cls self next_nodes s) = Raises e \<longrightarrow>
        working (snd (Task_start_next_tasks create_task cls self next_nodes s)) = working s"
    unfolding Task_start_next_tasks_def using atomic_rollback by blast
  have four: "0 < depth s \<and>
      fst (form_valid create_task iter cls object node_names s) = Raises e \<longrightarrow>
        working (snd (form_valid create_task iter cls object node_names s)) = working s"
    unfolding form_valid_def using atomic_rollback by blast
  show ?thesis using one two three four by blast
qed

text \<open>
  The order process: the successors of the start task are started, and the process is
  overridden towards \<open>ship\<close> and \<open>review\<close>.
\<close>

theorem parent_links_append_only_witness:
  "well_formed (working ex_state) \<and> acyclic (links (working ex_state)) \<and>
   depth ex_state = 0 \<and> hooks ex_state = [] \<and>
   pk ex_t1 = Some 1 \<and> has_row 1 (working ex_state) \<and> process_id ex_t1 = Some 1 \<and>
   Task_node ex_cls ex_t1 = Returns ex_start \<and>
   get_next_nodes ex_cls ex_start = [ex_review, ex_ship] \<and>
   appends_links (working ex_state)
     (working (snd (Task_start_next_tasks (\<lambda>m. None) ex_cls ex_t1 None ex_state))) \<and>
   acyclic (links (working (snd (Task_start_next_tasks (\<lambda>m. None) ex_cls ex_t1 None
     ex_state)))) \<and>
   well_formed (working (snd (Task_start_next_tasks (\<lambda>m. None) ex_cls ex_t1 None ex_state))) \<and>
   p_pk ex_process = Some 1 \<and> has_process 1 (working ex_state) \<and>
   get_next_task_nodes ex_iter ex_cls [''ship'', ''review''] = map Returns [ex_ship, ex_review] \<and>
   appends_links (working ex_state)
     (working (snd (form_valid (\<lambda>m. None) ex_iter ex_cls ex_process [''ship'', ''review'']
        ex_state))) \<and>
   acyclic (links (working (snd (form_valid (\<lambda>m. None) ex_iter ex_cls ex_process
     [''ship'', ''review''] ex_state)))) \<and>
   well_formed (working (snd (form_valid (\<lambda>m. None) ex_iter ex_cls ex_process
     [''ship'', ''review''] ex_state)))"
proof -
  have w: "well_formed (working ex_state)"
    by (simp add: well_formed_def has_row_def ex_defs)
  have e: "acyclic ({} :: (nat \<times> nat) set)"
    by (simp add: acyclic_def)
  have ac: "acyclic (links (working ex_state))"
    using e by (simp add: ex_defs acyclic_insert)
  have i: "depth ex_state = 0 \<longrightarrow> hooks ex_state = []" and i': "depth ex_state = 0" "hooks ex_state = []"
    by (simp_all add: ex_defs)
  have t: "pk ex_t1 = Some 1" "has_row 1 (working ex_state)" "process_id ex_t1 = Some 1"
    by (simp_all add: has_row_def ex_defs)
  have n: "Task_node ex_cls ex_t1 = Returns ex_start"
    by (simp add: Task_node_def edge_nodes_def ex_defs)
  have g: "get_next_nodes ex_cls ex_start = [ex_review, ex_ship]"
    by (simp add: get_next_nodes_def ex_defs)
  have p: "p_pk ex_process = Some 1" "(1::nat) \<noteq> 0" "has_process 1 (working ex_state)"
    by (simp_all add: has_process_def ex_defs)
  have gn: "get_next_task_nodes ex_iter ex_cls [''ship'', ''review''] = map Returns [ex_ship, ex_review]"
    by (simp add: get_next_task_nodes_def get_node_def get_nodes_def ex_defs)
  note th = parent_links_append_only [OF w ac i, of ex_t1 1 1 "[ex_review, ex_ship]" "\<lambda>m. None"
      None ex_cls ex_start ex_process ex_iter "[''ship'', ''review'']" "[ex_ship, ex_review]"]
  show ?thesis
    using th w ac i' t n g p gn by (simp add: Let_def)
qed

text \<open>
  Claim C7 as it is worded fails where a node has a \<open>create_task\<close> of its own that hands
  back a stored task. In the order process with a way back, \<open>start_next_tasks\<close> on the
  ship task 3 gets the review task 2 from \<open>create_task\<close> and adds the link (2, 3): a new
  parent for a row that was there before, and with the link (3, 2) a cycle. The override
  towards \<open>review\<close> does the same with the override task 3.
\<close>

theorem parent_links_counterexample:
  "well_formed (working ex_loop_state) \<and> acyclic (links (working ex_loop_state)) \<and>
   links (working ex_loop_state) = {(2, 1), (3, 2)} \<and>
   has_row 2 (working ex_loop_state) \<and>
   links (working (snd (Task_start_next_tasks ex_create_task ex_loop_cls ex_t3 None
     ex_loop_state))) = {(2, 1), (3, 2), (2, 3)} \<and>
   \<not> appends_links (working ex_loop_state)
       (working (snd (Task_start_next_tasks ex_create_task ex_loop_cls ex_t3 None
          ex_loop_state))) \<and>
   \<not> acyclic (links (working (snd (Task_start_next_tasks ex_create_task ex_loop_cls ex_t3 None
          ex_loop_state)))) \<and>
   well_formed (working ex_state) \<and> acyclic (links (working ex_state)) \<and>
   links (working ex_state) = {(2, 1)} \<and> has_row 2 (working ex_state) \<and>
   links (working (snd (form_valid ex_create_task ex_iter ex_cls ex_process [''review'']
     ex_state))) = {(2, 1), (3, 2), (2, 3)} \<and>
   \<not> appends_links (working ex_state)
       (working (snd (form_valid ex_create_task ex_iter ex_cls ex_process [''review'']
          ex_state))) \<and>
   \<not> acyclic (links (working (snd (form_valid ex_create_task ex_iter ex_cls ex_process
          [''review''] ex_state))))"
proof -
  let ?r = "{(2, 1), (3, 2), (2, 3)} :: (nat \<times> nat) set"
  have w: "well_formed (working ex_loop_state)" "well_formed (working ex_state)"
    by (simp_all add: well_formed_def has_row_def ex_defs ex_t2_done_def ex_t3_def
        ex_loop_db_def ex_loop_state_def)
  have e: "acyclic ({} :: (nat \<times> nat) set)"
    by (simp add: acyclic_def)
  have one: "acyclic ({(2, 1)} :: (nat \<times> nat) set)"
    using e by (simp add: acyclic_insert)
  have no: "((2, 3) :: nat \<times> nat) \<notin> {(2, 1)}\<^sup>*"
    by (auto dest!: rtranclD tranclD2)
  have two: "acyclic ({(2, 1), (3, 2)} :: (nat \<times> nat) set)"
  proof -
    have "acyclic (insert (3, 2) ({(2, 1)} :: (nat \<times> nat) set))"
      unfolding acyclic_insert using one no by simp
    then show ?thesis by (simp add: insert_commute)
  qed
  have l0: "links (working ex_loop_state) = {(2, 1), (3, 2)}" "links (working ex_state) = {(2, 1)}"
    by (simp_all add: ex_defs ex_loop_db_def ex_loop_state_def)
  have h: "has_row 2 (working ex_loop_state)" "has_row 2 (working ex_state)"
    by (simp_all add: has_row_def ex_defs ex_t2_done_def ex_t3_def ex_loop_db_def
        ex_loop_state_def)
  have l1: "links (working (snd (Task_start_next_tasks ex_create_task ex_loop_cls ex_t3 None
       ex_loop_state))) = ?r"
    by code_simp
  have l2: "links (working (snd (form_valid ex_create_task ex_iter ex_cls ex_process
       [''review''] ex_state))) = ?r"
    by code_simp
  have cyc: "\<not> acyclic ?r"
  proof -
    have a: "(2, 3) \<in> ?r\<^sup>+" by (rule r_into_trancl) simp
    have b: "(3, 2) \<in> ?r\<^sup>+" by (rule r_into_trancl) simp
    have "(2, 2) \<in> ?r\<^sup>+" using a b by (rule trancl_trans)
    then show ?thesis unfolding acyclic_def by blast
  qed
  have n1: "\<not> appends_links (working ex_loop_state)
       (working (snd (Task_start_next_tasks ex_create_task ex_loop_cls ex_t3 None
          ex_loop_state)))"
    unfolding appends_links_def l1 l0 using h(1) by auto
  have n2: "\<not> appends_links (working ex_state)
       (working (snd (form_valid ex_create_task ex_iter ex_cls ex_process [''review'']
          ex_state)))"
    unfolding appends_links_def l2 l0 using h(2) by auto
  show ?thesis
    unfolding l1 l2 l0 using w one two h cyc n1 [unfolded l1] n2 [unfolded l2] by simp
qed

subsection \<open>The task of a view\<close>




subsection \<open>Putting a task back on the queue\<close>



subsection \<open>The URL of a task\<close>

text \<open>
  Claim C10, as the code has it, for a task that belongs to a process.
  \<open>get_absolute_url\<close> returns and does not raise: \<open>None\<close> when the completion time is set
  (this much for every task object, with or without a process), \<open>None\<close> when the task is
  open and \<open>reverse\<close> finds no route for its node, and the URL only when the task is open
  and \<open>reverse\<close> finds one.
\<close>

theorem get_absolute_url_total:
  "(completed self \<noteq> None \<longrightarrow> Task_get_absolute_url reverse cls self = Returns None) \<and>
   (process_id self \<noteq> None \<longrightarrow>
      Task_get_absolute_url reverse cls self =
        Returns (if completed self \<noteq> None then None
                 else reverse (get_url_namespace cls @ '':'' @ task_node_name self) (pk self)))"
  by (auto simp add: Task_get_absolute_url_def Let_def split: option.splits)

text \<open>The finished start task, the open review task, and the review task without routes.\<close>

theorem get_absolute_url_total_witness:
  "completed ex_t1 \<noteq> None \<and> Task_get_absolute_url ex_reverse ex_cls ex_t1 = Returns None \<and>
   process_id ex_t2 \<noteq> None \<and>
   Task_get_absolute_url ex_reverse ex_cls ex_t2 = Returns (Some ''/order/review/2/'') \<and>
   Task_get_absolute_url (\<lambda>n k. None) ex_cls ex_t2 = Returns None"
  using get_absolute_url_total [of ex_t1 ex_reverse ex_cls]
    get_absolute_url_total [of ex_t2 ex_reverse ex_cls]
    get_absolute_url_total [of ex_t2 "\<lambda>n k. None" ex_cls]
  by (simp add: ex_defs ex_reverse_def get_url_namespace_def lower_char_def)

text \<open>
  Claim C10 as it is worded fails on an open task without a process, which is the object
  that \<open>get_task\<close> builds for a request without \<open>pk\<close>: \<open>self.process\<close> has no
  \<open>get_url_namespace\<close> and the call raises \<open>AttributeError\<close>.
\<close>

theorem get_absolute_url_counterexample:
  "get_task ''start'' (\<lambda>k. None) ex_state = Returns (new_task\<lparr>task_node_name := ''start''\<rparr>) \<and>
   completed (new_task\<lparr>task_node_name := ''start''\<rparr>) = None \<and>
   process_id (new_task\<lparr>task_node_name := ''start''\<rparr>) = None \<and>
   Task_get_absolute_url ex_reverse ex_cls (new_task\<lparr>task_node_name := ''start''\<rparr>) =
     Raises AttributeError"
  by (simp add: get_task_def Task_get_absolute_url_def new_task_def)

end
